theory Spec2Isabelle
  imports Complex_Main
begin

section \<open>Caller-supplied conditions\<close>

text \<open>
  A condition is a TypeScript function \<^verbatim>\<open>(msg: Message) => boolean\<close>. Evaluated on a
  message it returns a boolean or throws; on the way it may call back into the client
  (re-entrancy). A behaviour is the finite script of what one evaluation does: the
  client calls it makes, in order, and then the value it returns or the exception it
  throws. The type \<open>'c\<close> is the type of the calls of the client at hand.

  Two limits of this model. A condition is a function of the message: what it does on a
  message does not depend on the messages it has seen before. And a behaviour, being a
  value of a datatype, is finite, together with the behaviours of the conditions it
  registers: a condition that registers a waiter with itself as condition, under which
  \<^verbatim>\<open>Set.prototype.forEach\<close> never ends, is not a value of this type.
\<close>

datatype 'c behaviour = Returns bool | Throws string | Calls 'c "'c behaviour"

text \<open>
  The two wait operations of the default-export \<^verbatim>\<open>KrakenClient\<close>, with their arguments:
  \<^verbatim>\<open>waitFor(condition, count, timeout)\<close> and \<^verbatim>\<open>waitForSilence(condition, timeout)\<close>.
  \<^verbatim>\<open>count\<close> and \<^verbatim>\<open>timeout\<close> are JavaScript numbers.
\<close>

datatype 'm call =
    WaitFor "'m \<Rightarrow> 'm call behaviour" real real
  | WaitForSilence "'m \<Rightarrow> 'm call behaviour" real

type_synonym 'm condition = "'m \<Rightarrow> 'm call behaviour"

fun condition_of :: "'m call \<Rightarrow> 'm condition" where
  "condition_of (WaitFor condition count timeout) = condition"
| "condition_of (WaitForSilence condition timeout) = condition"

section \<open>The state of one client\<close>

text \<open>
  The \<^verbatim>\<open>Error\<close> objects the two operations reject with, by the values interpolated into
  their messages:
  \<^verbatim>\<open>`Timeout: Only received ${results.length}/${count} messages`\<close> and
  \<^verbatim>\<open>'Message received during silence window'\<close>.
\<close>

datatype error =
    Timeout_Only_received nat real
  | Message_received_during_silence_window

text \<open>
  A call of \<^verbatim>\<open>resolve\<close> or \<^verbatim>\<open>reject\<close> of a promise. \<^verbatim>\<open>resolve(results)\<close> passes the
  \<^verbatim>\<open>results\<close> array of the call itself (a reference, not a copy).
\<close>

datatype settlement = Resolve_results | Resolve_void | Reject error

text \<open>What escapes the \<^verbatim>\<open>'message'\<close> listener as an uncaught exception.\<close>

datatype exn = Predicate_threw string | JSON_SyntaxError

text \<open>
  Every call of \<^verbatim>\<open>waitFor\<close> or \<^verbatim>\<open>waitForSilence\<close> creates one promise, one \<^verbatim>\<open>handler\<close>
  closure, one \<^verbatim>\<open>timer\<close> and one \<^verbatim>\<open>cleanup\<close> closure (and \<^verbatim>\<open>waitFor\<close> one \<^verbatim>\<open>results\<close>
  array); the number of the call identifies all of them.
  \<^item> \<open>messageHandlers\<close> is the \<^verbatim>\<open>Set\<close> of handlers: its entries in insertion order, a
    deleted entry leaving an empty slot, as \<^verbatim>\<open>Set.prototype.forEach\<close> sees it;
  \<^item> \<open>closures\<close> holds the arguments captured by the closures of a call;
  \<^item> \<open>results\<close> is the array of each call;
  \<^item> \<open>timers\<close> holds the pending timeouts with their delay;
  \<^item> \<open>settled\<close> records every call of \<^verbatim>\<open>resolve\<close> or \<^verbatim>\<open>reject\<close> of each promise, in order
    (a history variable: a promise keeps the first and ignores the rest);
  \<^item> \<open>delivered\<close> records every invocation of a handler (another history variable);
  \<^item> \<open>uncaught\<close> records the exceptions that escaped the \<^verbatim>\<open>'message'\<close> listener.
\<close>

record 'm client =
  messageHandlers :: "nat option list"
  closures :: "nat \<Rightarrow> 'm call option"
  results :: "nat \<Rightarrow> 'm list"
  timers :: "nat \<Rightarrow> real option"
  settled :: "nat \<Rightarrow> settlement list"
  delivered :: "(nat \<times> 'm) list"
  uncaught :: "exn list"
  next_call :: nat

definition init :: "'m client" where
  "init = \<lparr> messageHandlers = [], closures = (\<lambda>k. None), results = (\<lambda>k. []),
            timers = (\<lambda>k. None), settled = (\<lambda>k. []), delivered = [], uncaught = [],
            next_call = 0 \<rparr>"

text \<open>What a caller awaiting the promise of call \<open>k\<close> observes.\<close>

datatype 'm promise = Pending | Fulfilled "'m list" | Fulfilled_void | Rejected error

definition promise :: "nat \<Rightarrow> 'm client \<Rightarrow> 'm promise" where
  "promise k s =
     (case settled s k of
        [] \<Rightarrow> Pending
      | Resolve_results # _ \<Rightarrow> Fulfilled (results s k)
      | Resolve_void # _ \<Rightarrow> Fulfilled_void
      | Reject e # _ \<Rightarrow> Rejected e)"

section \<open>The operations\<close>

text \<open>\<^verbatim>\<open>Set.prototype.add\<close> and \<^verbatim>\<open>Set.prototype.delete\<close> on the entry list.\<close>

definition set_add :: "nat \<Rightarrow> nat option list \<Rightarrow> nat option list" where
  "set_add k hs = (if Some k \<in> set hs then hs else hs @ [Some k])"

definition set_delete :: "nat \<Rightarrow> nat option list \<Rightarrow> nat option list" where
  "set_delete k hs = map (\<lambda>e. if e = Some k then None else e) hs"

text \<open>\<^verbatim>\<open>resolve(...)\<close> and \<^verbatim>\<open>reject(...)\<close> of the promise of call \<open>k\<close>.\<close>

definition settle :: "nat \<Rightarrow> settlement \<Rightarrow> 'm client \<Rightarrow> 'm client" where
  "settle k x s = s\<lparr>settled := (settled s)(k := settled s k @ [x])\<rparr>"

text \<open>
  \<^verbatim>\<open>const cleanup = () => { clearTimeout(timer); this.messageHandlers.delete(handler); }\<close>
\<close>

definition cleanup :: "nat \<Rightarrow> 'm client \<Rightarrow> 'm client" where
  "cleanup k s =
     s\<lparr>timers := (timers s)(k := None),
       messageHandlers := set_delete k (messageHandlers s)\<rparr>"

text \<open>
  The executor of the promise of \<^verbatim>\<open>waitFor\<close>: a fresh \<^verbatim>\<open>results\<close> array, the timer
  started, the handler added to the set. The call gets the next number.
\<close>

definition waitFor :: "'m condition \<Rightarrow> real \<Rightarrow> real \<Rightarrow> 'm client \<Rightarrow> 'm client" where
  "waitFor condition count timeout s =
     (let k = next_call s in
      s\<lparr>closures := (closures s)(k := Some (WaitFor condition count timeout)),
        results := (results s)(k := []),
        timers := (timers s)(k := Some timeout),
        messageHandlers := set_add k (messageHandlers s),
        next_call := Suc k\<rparr>)"

definition waitForSilence :: "'m condition \<Rightarrow> real \<Rightarrow> 'm client \<Rightarrow> 'm client" where
  "waitForSilence condition timeout s =
     (let k = next_call s in
      s\<lparr>closures := (closures s)(k := Some (WaitForSilence condition timeout)),
        timers := (timers s)(k := Some timeout),
        messageHandlers := set_add k (messageHandlers s),
        next_call := Suc k\<rparr>)"

fun perform :: "'m call \<Rightarrow> 'm client \<Rightarrow> 'm client" where
  "perform (WaitFor condition count timeout) s = waitFor condition count timeout s"
| "perform (WaitForSilence condition timeout) s = waitForSilence condition timeout s"

text \<open>
  Evaluating \<^verbatim>\<open>condition(msg)\<close>: the calls it makes are performed on the client, then it
  returns (\<open>Inr\<close>) or throws (\<open>Inl\<close>).
\<close>

primrec evaluate :: "'m call behaviour \<Rightarrow> 'm client \<Rightarrow> (string + bool) \<times> 'm client" where
  "evaluate (Returns b) s = (Inr b, s)"
| "evaluate (Throws e) s = (Inl e, s)"
| "evaluate (Calls c b) s = evaluate b (perform c s)"

text \<open>
  The body of the handler of \<^verbatim>\<open>waitFor\<close> after \<^verbatim>\<open>condition(msg)\<close> returned \<open>b\<close>:
  \<^verbatim>\<open>if (b) { results.push(msg); if (results.length === count) { cleanup(); resolve(results); } }\<close>
\<close>

definition waitFor_matched :: "nat \<Rightarrow> real \<Rightarrow> 'm \<Rightarrow> 'm client \<Rightarrow> 'm client" where
  "waitFor_matched k count msg s =
     (let s1 = s\<lparr>results := (results s)(k := results s k @ [msg])\<rparr> in
      if real (length (results s1 k)) = count
      then settle k Resolve_results (cleanup k s1)
      else s1)"

text \<open>
  The same for \<^verbatim>\<open>waitForSilence\<close>:
  \<^verbatim>\<open>if (b) { cleanup(); reject(new Error('Message received during silence window')); }\<close>
\<close>

definition waitForSilence_matched :: "nat \<Rightarrow> 'm client \<Rightarrow> 'm client" where
  "waitForSilence_matched k s =
     settle k (Reject Message_received_during_silence_window) (cleanup k s)"

fun matched :: "nat \<Rightarrow> 'm call \<Rightarrow> 'm \<Rightarrow> 'm client \<Rightarrow> 'm client" where
  "matched k (WaitFor condition count timeout) msg s = waitFor_matched k count msg s"
| "matched k (WaitForSilence condition timeout) msg s = waitForSilence_matched k s"

text \<open>
  One invocation \<^verbatim>\<open>handler(msg)\<close> of the handler of call \<open>k\<close>. The result is the exception
  that escaped it, if any, and the state it leaves. (A handler in the set always has
  its closure; the first case is there for totality only.)
\<close>

definition handler :: "nat \<Rightarrow> 'm \<Rightarrow> 'm client \<Rightarrow> exn option \<times> 'm client" where
  "handler k msg s =
     (let s0 = s\<lparr>delivered := delivered s @ [(k, msg)]\<rparr> in
      case closures s0 k of
        None \<Rightarrow> (None, s0)
      | Some c \<Rightarrow>
          (case evaluate (condition_of c msg) s0 of
             (Inl e, s1) \<Rightarrow> (Some (Predicate_threw e), s1)
           | (Inr b, s1) \<Rightarrow> (None, if b then matched k c msg s1 else s1)))"

text \<open>
  \<^verbatim>\<open>this.messageHandlers.forEach(handler => handler(msg))\<close>. \<^verbatim>\<open>Set.prototype.forEach\<close>
  walks the entries of the set as they are when it reaches them: an entry deleted before
  its turn is skipped, an entry added during the walk is visited. An exception thrown by
  a handler ends the walk. The set can grow during the walk, so the walk is not a
  recursion over a list fixed in advance: it is a partial function, \<open>None\<close> where the walk
  does not end.
\<close>

partial_function (option) forEach ::
    "nat \<Rightarrow> 'm \<Rightarrow> 'm client \<Rightarrow> (exn option \<times> 'm client) option" where
  "forEach i msg s =
     (if i < length (messageHandlers s) then
        (case messageHandlers s ! i of
           None \<Rightarrow> forEach (Suc i) msg s
         | Some k \<Rightarrow>
             (case handler k msg s of
                (Some e, s1) \<Rightarrow> Some (Some e, s1)
              | (None, s1) \<Rightarrow> forEach (Suc i) msg s1))
      else Some (None, s))"

declare forEach.simps [code]

text \<open>
  The callback of the timer of call \<open>k\<close>. A timeout runs once, and only while it is
  pending.
  \<^verbatim>\<open>waitFor\<close>: \<^verbatim>\<open>cleanup(); reject(new Error(`Timeout: Only received ${results.length}/${count} messages`))\<close>;
  \<^verbatim>\<open>waitForSilence\<close>: \<^verbatim>\<open>cleanup(); resolve()\<close>.
\<close>

fun timer_callback :: "nat \<Rightarrow> 'm call \<Rightarrow> 'm client \<Rightarrow> 'm client" where
  "timer_callback k (WaitFor condition count timeout) s =
     (let s1 = cleanup k s in
      settle k (Reject (Timeout_Only_received (length (results s1 k)) count)) s1)"
| "timer_callback k (WaitForSilence condition timeout) s =
     settle k Resolve_void (cleanup k s)"

definition timer_fires :: "nat \<Rightarrow> 'm client \<Rightarrow> 'm client" where
  "timer_fires k s =
     (case timers s k of
        None \<Rightarrow> s
      | Some timeout \<Rightarrow>
          (let s0 = s\<lparr>timers := (timers s)(k := None)\<rparr> in
           case closures s0 k of
             None \<Rightarrow> s0
           | Some c \<Rightarrow> timer_callback k c s0))"

section \<open>The event loop\<close>

text \<open>
  What the runtime does to a connected client, one callback at a time: the test code
  calls an operation (\<open>'c\<close> is the type of the calls of the client), a frame arrives
  whose text parses to a message (\<^verbatim>\<open>JSON.parse(data.toString())\<close>) or does not parse, or
  the timeout of call \<open>k\<close> elapses. Time is the order of the events: a message arrives
  before the timeout of a call elapses when its event comes before the \<open>Expire\<close> event of
  that call. An exception that escapes a callback is recorded in \<open>uncaught\<close>; what the
  host then does (report it, end the process) is not the client's: a run is the list of
  the callbacks the runtime does make.
\<close>

datatype ('c, 'm) event = Invoke 'c | Message 'm | Unparsable | Expire nat

text \<open>
  The \<^verbatim>\<open>'message'\<close> listener installed by \<^verbatim>\<open>connect\<close>:
  \<^verbatim>\<open>const msg = JSON.parse(data.toString()); this.messageHandlers.forEach(handler => handler(msg));\<close>
\<close>

definition on_message :: "'m \<Rightarrow> 'm client \<Rightarrow> 'm client option" where
  "on_message msg s =
     (case forEach 0 msg s of
        None \<Rightarrow> None
      | Some (None, s1) \<Rightarrow> Some s1
      | Some (Some e, s1) \<Rightarrow> Some (s1\<lparr>uncaught := uncaught s1 @ [e]\<rparr>))"

fun step :: "('m call, 'm) event \<Rightarrow> 'm client \<Rightarrow> 'm client option" where
  "step (Invoke c) s = Some (perform c s)"
| "step (Message msg) s = on_message msg s"
| "step Unparsable s = Some (s\<lparr>uncaught := uncaught s @ [JSON_SyntaxError]\<rparr>)"
| "step (Expire k) s = Some (timer_fires k s)"

fun run :: "('m call, 'm) event list \<Rightarrow> 'm client \<Rightarrow> 'm client option" where
  "run [] s = Some s"
| "run (e # es) s = (case step e s of None \<Rightarrow> None | Some s1 \<Rightarrow> run es s1)"

section \<open>Invariants of the client\<close>

text \<open>The non-empty entries of the handler set, in insertion order.\<close>

fun entries :: "nat option list \<Rightarrow> nat list" where
  "entries [] = []"
| "entries (None # hs) = entries hs"
| "entries (Some k # hs) = k # entries hs"

text \<open>
  What holds of every state the client can reach: a registered handler and a pending
  timer belong to a call that was made and whose promise is still pending; no promise
  was settled twice; no handler is in the set twice.
\<close>

definition invar :: "'m client \<Rightarrow> bool" where
  "invar s \<longleftrightarrow>
     (\<forall>k. Some k \<in> set (messageHandlers s) \<longrightarrow>
          k < next_call s \<and> settled s k = [] \<and> closures s k \<noteq> None)
   \<and> (\<forall>k. timers s k \<noteq> None \<longrightarrow> k < next_call s \<and> settled s k = [])
   \<and> (\<forall>k. length (settled s k) \<le> 1)
   \<and> (\<forall>k. next_call s \<le> k \<longrightarrow> settled s k = [])
   \<and> distinct (entries (messageHandlers s))"

text \<open>From \<open>s\<close> to \<open>s'\<close>, a settled promise keeps its settlement and its results.\<close>

definition evolves :: "'m client \<Rightarrow> 'm client \<Rightarrow> bool" where
  "evolves s s' \<longleftrightarrow>
     (\<forall>k. settled s k \<noteq> [] \<longrightarrow> settled s' k = settled s k \<and> results s' k = results s k)"

section \<open>One waiter at a time\<close>

text \<open>
  Auxiliary notions for the proofs. The condition of call \<open>k\<close> returns on message \<open>m\<close>
  (it neither throws nor calls the client); the state one invocation of a handler
  leaves; the part of the state that belongs to one call (is its handler in the set,
  its timer, its results, the settlements of its promise); and what the delivery of a
  message does to that part when the condition returns.
\<close>

definition returns_at :: "'m client \<Rightarrow> nat \<Rightarrow> 'm \<Rightarrow> bool" where
  "returns_at s k m \<longleftrightarrow> (\<exists>c b. closures s k = Some c \<and> condition_of c m = Returns b)"

definition deliver :: "nat \<Rightarrow> 'm \<Rightarrow> 'm client \<Rightarrow> 'm client" where
  "deliver k m s = snd (handler k m s)"

type_synonym 'm view = "bool \<times> real option \<times> 'm list \<times> settlement list"

definition view :: "nat \<Rightarrow> 'm client \<Rightarrow> 'm view" where
  "view k s = (Some k \<in> set (messageHandlers s), timers s k, results s k, settled s k)"

fun react :: "'m call \<Rightarrow> 'm \<Rightarrow> 'm view \<Rightarrow> 'm view" where
  "react (WaitFor condition count timeout) m (reg, tm, rs, st) =
     (if condition m = Returns True then
        (if real (length (rs @ [m])) = count
         then (False, None, rs @ [m], st @ [Resolve_results])
         else (reg, tm, rs @ [m], st))
      else (reg, tm, rs, st))"
| "react (WaitForSilence condition timeout) m (reg, tm, rs, st) =
     (if condition m = Returns True
      then (False, None, rs, st @ [Reject Message_received_during_silence_window])
      else (reg, tm, rs, st))"

text \<open>
  The handlers a walk of the set visits between the slots \<open>i\<close> and \<open>j\<close>, and the relation
  between the state \<open>s\<close> before such a walk and the state \<open>s'\<close> after it when every
  condition on the way returns: each visited handler was invoked once, in order, and
  only the parts of the state that belong to the visited calls have changed.
\<close>

definition visited :: "nat \<Rightarrow> nat \<Rightarrow> nat option list \<Rightarrow> nat list" where
  "visited i j hs = entries (take (j - i) (drop i hs))"

definition visits :: "nat \<Rightarrow> nat \<Rightarrow> 'm \<Rightarrow> 'm client \<Rightarrow> 'm client \<Rightarrow> bool" where
  "visits i j m s s' \<longleftrightarrow>
     closures s' = closures s \<and> next_call s' = next_call s \<and> uncaught s' = uncaught s
   \<and> length (messageHandlers s') = length (messageHandlers s)
   \<and> drop j (messageHandlers s') = drop j (messageHandlers s)
   \<and> delivered s' = delivered s @ map (\<lambda>k. (k, m)) (visited i j (messageHandlers s))
   \<and> (\<forall>k. view k s' =
          (if k \<in> set (visited i j (messageHandlers s))
           then react (the (closures s k)) m (view k s) else view k s))"

section \<open>Conditions that only test the message\<close>

text \<open>
  A call is pure when its condition returns a boolean on every message: it throws
  nothing and calls nothing. A state is pure when the calls made so far are, an event
  when the call it makes (if any) is.
\<close>

definition pure_call :: "'m call \<Rightarrow> bool" where
  "pure_call c \<longleftrightarrow> (\<forall>m. \<exists>b. condition_of c m = Returns b)"

definition pure_state :: "'m client \<Rightarrow> bool" where
  "pure_state s \<longleftrightarrow> (\<forall>k c. closures s k = Some c \<longrightarrow> pure_call c)"

fun pure_event :: "('m call, 'm) event \<Rightarrow> bool" where
  "pure_event (Invoke c) = pure_call c"
| "pure_event (Message m) = True"
| "pure_event Unparsable = True"
| "pure_event (Expire k) = True"

text \<open>The messages of a run, in order of arrival.\<close>

fun messages :: "('c, 'm) event list \<Rightarrow> 'm list" where
  "messages [] = []"
| "messages (Message m # es) = m # messages es"
| "messages (Invoke c # es) = messages es"
| "messages (Unparsable # es) = messages es"
| "messages (Expire k # es) = messages es"

text \<open>
  Call \<open>k\<close>, made with the arguments \<open>c\<close>, is still waiting: its handler is in the set,
  its timer is pending, its promise is pending.
\<close>

definition active :: "nat \<Rightarrow> 'm call \<Rightarrow> 'm client \<Rightarrow> bool" where
  "active k c s \<longleftrightarrow>
     Some k \<in> set (messageHandlers s) \<and> closures s k = Some c
   \<and> timers s k \<noteq> None \<and> settled s k = []"

section \<open>A walk of the handler set, whatever the conditions do\<close>

text \<open>
  From one state of the handler set to a later one, slots are only emptied or appended.
  And what a walk from slot \<open>i\<close> on, started in \<open>s\<close> with message \<open>m\<close>, has done when it ends
  with \<open>y\<close>: the invocations it made were appended to the history; if no exception
  ended it, it has invoked the handler of every slot from \<open>i\<close> on that was occupied when
  it started and the handler of every call made while it ran.
\<close>

definition slots_grow :: "nat option list \<Rightarrow> nat option list \<Rightarrow> bool" where
  "slots_grow hs hs' \<longleftrightarrow>
     length hs \<le> length hs' \<and> (\<forall>n < length hs. hs' ! n = hs ! n \<or> hs' ! n = None)"

definition walked :: "nat \<Rightarrow> 'm \<Rightarrow> 'm client \<Rightarrow> exn option \<times> 'm client \<Rightarrow> bool" where
  "walked i m s y \<longleftrightarrow>
     invar (snd y)
   \<and> slots_grow (messageHandlers s) (messageHandlers (snd y))
   \<and> next_call s \<le> next_call (snd y)
   \<and> uncaught (snd y) = uncaught s
   \<and> (\<exists>l. delivered (snd y) = delivered s @ l
        \<and> (fst y = None \<longrightarrow>
             (\<forall>n k. i \<le> n \<and> n < length (messageHandlers s) \<and> messageHandlers s ! n = Some k
                    \<longrightarrow> (k, m) \<in> set l)
           \<and> (\<forall>k. next_call s \<le> k \<and> k < next_call (snd y) \<longrightarrow> (k, m) \<in> set l)))"

section \<open>The named-export client\<close>

text \<open>
  The older class, \<^verbatim>\<open>export class KrakenClient\<close>, registers the listener of each wait on
  the socket itself and has one operation, \<^verbatim>\<open>waitFor(predicate, timeout)\<close>.
\<close>

datatype 'm call_named = WaitFor_named "'m \<Rightarrow> 'm call_named behaviour" real

text \<open>
  \<^verbatim>\<open>new Error(`Wait Timeout: Message not received within ${timeout}ms`)\<close>, and the calls
  of \<^verbatim>\<open>resolve(msg)\<close> and \<^verbatim>\<open>reject(...)\<close>.
\<close>

datatype error_named = Wait_Timeout_Message_not_received_within real

datatype 'm settlement_named = Resolve_msg 'm | Reject_named error_named

text \<open>
  \<open>listeners\<close> is the array of \<^verbatim>\<open>'message'\<close> listeners of the socket (an \<^verbatim>\<open>EventEmitter\<close>), in
  the order of their registration; the other fields are as in the default-export client.
\<close>

record 'm client_named =
  listeners :: "nat list"
  closures_named :: "nat \<Rightarrow> 'm call_named option"
  timers_named :: "nat \<Rightarrow> real option"
  settled_named :: "nat \<Rightarrow> 'm settlement_named list"
  uncaught_named :: "exn list"
  next_call_named :: nat

definition init_named :: "'m client_named" where
  "init_named = \<lparr> listeners = [], closures_named = (\<lambda>k. None), timers_named = (\<lambda>k. None),
                  settled_named = (\<lambda>k. []), uncaught_named = [], next_call_named = 0 \<rparr>"

datatype 'm promise_named = Pending_named | Fulfilled_named 'm | Rejected_named error_named

definition promise_named :: "nat \<Rightarrow> 'm client_named \<Rightarrow> 'm promise_named" where
  "promise_named k s =
     (case settled_named s k of
        [] \<Rightarrow> Pending_named
      | Resolve_msg m # _ \<Rightarrow> Fulfilled_named m
      | Reject_named e # _ \<Rightarrow> Rejected_named e)"

text \<open>
  \<^verbatim>\<open>emitter.off(name, listener)\<close> removes the most recently added instance of the listener.
\<close>

definition removeListener :: "nat \<Rightarrow> nat list \<Rightarrow> nat list" where
  "removeListener k ls = rev (remove1 k (rev ls))"

definition settle_named :: "nat \<Rightarrow> 'm settlement_named \<Rightarrow> 'm client_named \<Rightarrow> 'm client_named" where
  "settle_named k x s = s\<lparr>settled_named := (settled_named s)(k := settled_named s k @ [x])\<rparr>"

text \<open>
  The executor of the promise of \<^verbatim>\<open>waitFor\<close>: the timer started, the listener registered
  with \<^verbatim>\<open>this.ws.on('message', listener)\<close>.
\<close>

definition waitFor_named :: "('m \<Rightarrow> 'm call_named behaviour) \<Rightarrow> real \<Rightarrow> 'm client_named \<Rightarrow> 'm client_named" where
  "waitFor_named predicate timeout s =
     (let k = next_call_named s in
      s\<lparr>closures_named := (closures_named s)(k := Some (WaitFor_named predicate timeout)),
        timers_named := (timers_named s)(k := Some timeout),
        listeners := listeners s @ [k],
        next_call_named := Suc k\<rparr>)"

fun perform_named :: "'m call_named \<Rightarrow> 'm client_named \<Rightarrow> 'm client_named" where
  "perform_named (WaitFor_named predicate timeout) s = waitFor_named predicate timeout s"

primrec evaluate_named ::
    "'m call_named behaviour \<Rightarrow> 'm client_named \<Rightarrow> (string + bool) \<times> 'm client_named" where
  "evaluate_named (Returns b) s = (Inr b, s)"
| "evaluate_named (Throws e) s = (Inl e, s)"
| "evaluate_named (Calls c b) s = evaluate_named b (perform_named c s)"

text \<open>
  The body of the listener after \<^verbatim>\<open>predicate(msg)\<close> returned true:
  \<^verbatim>\<open>clearTimeout(timer); this.ws.off('message', listener); resolve(msg);\<close>
\<close>

definition matched_named :: "nat \<Rightarrow> 'm \<Rightarrow> 'm client_named \<Rightarrow> 'm client_named" where
  "matched_named k msg s =
     settle_named k (Resolve_msg msg)
       (s\<lparr>timers_named := (timers_named s)(k := None),
          listeners := removeListener k (listeners s)\<rparr>)"

text \<open>
  One invocation \<^verbatim>\<open>listener(data)\<close> of the listener of call \<open>k\<close>; \<open>frame\<close> is what
  \<^verbatim>\<open>JSON.parse(data.toString())\<close> gives, \<open>None\<close> when it throws.
\<close>

definition listener_named ::
    "nat \<Rightarrow> 'm option \<Rightarrow> 'm client_named \<Rightarrow> exn option \<times> 'm client_named" where
  "listener_named k frame s =
     (case frame of
        None \<Rightarrow> (Some JSON_SyntaxError, s)
      | Some msg \<Rightarrow>
          (case closures_named s k of
             None \<Rightarrow> (None, s)
           | Some (WaitFor_named predicate timeout) \<Rightarrow>
               (case evaluate_named (predicate msg) s of
                  (Inl e, s1) \<Rightarrow> (Some (Predicate_threw e), s1)
                | (Inr b, s1) \<Rightarrow> (None, if b then matched_named k msg s1 else s1))))"

text \<open>
  \<^verbatim>\<open>emitter.emit('message', data)\<close> calls the listeners of a copy of the array taken when
  the emit starts, in order; an exception thrown by a listener ends it.
\<close>

fun emit_named :: "nat list \<Rightarrow> 'm option \<Rightarrow> 'm client_named \<Rightarrow> exn option \<times> 'm client_named" where
  "emit_named [] frame s = (None, s)"
| "emit_named (k # ks) frame s =
     (case listener_named k frame s of
        (Some e, s1) \<Rightarrow> (Some e, s1)
      | (None, s1) \<Rightarrow> emit_named ks frame s1)"

definition on_frame_named :: "'m option \<Rightarrow> 'm client_named \<Rightarrow> 'm client_named" where
  "on_frame_named frame s =
     (case emit_named (listeners s) frame s of
        (None, s1) \<Rightarrow> s1
      | (Some e, s1) \<Rightarrow> s1\<lparr>uncaught_named := uncaught_named s1 @ [e]\<rparr>)"

text \<open>
  The callback of the timer of call \<open>k\<close>: it rejects, and leaves the listener registered.
\<close>

definition timer_fires_named :: "nat \<Rightarrow> 'm client_named \<Rightarrow> 'm client_named" where
  "timer_fires_named k s =
     (case timers_named s k of
        None \<Rightarrow> s
      | Some t \<Rightarrow>
          (let s0 = s\<lparr>timers_named := (timers_named s)(k := None)\<rparr> in
           case closures_named s0 k of
             None \<Rightarrow> s0
           | Some (WaitFor_named predicate timeout) \<Rightarrow>
               settle_named k (Reject_named (Wait_Timeout_Message_not_received_within timeout)) s0))"

fun step_named :: "('m call_named, 'm) event \<Rightarrow> 'm client_named \<Rightarrow> 'm client_named" where
  "step_named (Invoke c) s = perform_named c s"
| "step_named (Message msg) s = on_frame_named (Some msg) s"
| "step_named Unparsable s = on_frame_named None s"
| "step_named (Expire k) s = timer_fires_named k s"

fun run_named :: "('m call_named, 'm) event list \<Rightarrow> 'm client_named \<Rightarrow> 'm client_named" where
  "run_named [] s = s"
| "run_named (e # es) s = run_named es (step_named e s)"

section \<open>The two clients on one scenario\<close>

text \<open>
  A scenario is a run in which each call is given by a predicate \<open>P\<close> on messages and a
  timeout \<open>T\<close>. The named-export client runs it with \<^verbatim>\<open>waitFor(P, T)\<close>, the default-export
  client with \<^verbatim>\<open>waitFor(P, 1, T)\<close>. The outcomes of a call correspond when both promises
  are pending, or the one is fulfilled with a message and the other with the list of
  that message alone, or both are rejected with their timeout errors.
\<close>

fun as_named :: "(('m \<Rightarrow> bool) \<times> real, 'm) event \<Rightarrow> ('m call_named, 'm) event" where
  "as_named (Invoke (P, T)) = Invoke (WaitFor_named (\<lambda>m. Returns (P m)) T)"
| "as_named (Message m) = Message m"
| "as_named Unparsable = Unparsable"
| "as_named (Expire k) = Expire k"

fun as_default :: "(('m \<Rightarrow> bool) \<times> real, 'm) event \<Rightarrow> ('m call, 'm) event" where
  "as_default (Invoke (P, T)) = Invoke (WaitFor (\<lambda>m. Returns (P m)) 1 T)"
| "as_default (Message m) = Message m"
| "as_default Unparsable = Unparsable"
| "as_default (Expire k) = Expire k"

fun corresponds :: "'m promise_named \<Rightarrow> 'm promise \<Rightarrow> bool" where
  "corresponds Pending_named p = (p = Pending)"
| "corresponds (Fulfilled_named m) p = (p = Fulfilled [m])"
| "corresponds (Rejected_named e) p = (p = Rejected (Timeout_Only_received 0 1))"

text \<open>
  Auxiliary notions for the comparison. The part of the state of the named-export client
  that belongs to one call (is its listener registered, its timer, the settlements of
  its promise), and what the delivery of a message does to it when the predicate
  returns \<open>b\<close>; how the parts of the two states that belong to one call are related
  (both waiting; both resolved by the same message; both rejected by the timer); and
  the relation between the two states as a whole.
\<close>

type_synonym 'm view_named = "bool \<times> real option \<times> 'm settlement_named list"

definition view_named :: "nat \<Rightarrow> 'm client_named \<Rightarrow> 'm view_named" where
  "view_named k t = (k \<in> set (listeners t), timers_named t k, settled_named t k)"

fun react_named :: "bool \<Rightarrow> 'm \<Rightarrow> 'm view_named \<Rightarrow> 'm view_named" where
  "react_named b m (reg, tm, st) =
     (if b then (False, None, st @ [Resolve_msg m]) else (reg, tm, st))"

definition holds_named :: "'m client_named \<Rightarrow> nat \<Rightarrow> 'm \<Rightarrow> bool" where
  "holds_named t k m =
     (case closures_named t k of
        None \<Rightarrow> False
      | Some (WaitFor_named predicate timeout) \<Rightarrow> predicate m = Returns True)"

definition rel_view :: "real \<Rightarrow> 'm view \<Rightarrow> 'm view_named \<Rightarrow> bool" where
  "rel_view T v w \<longleftrightarrow>
     (v = (True, Some T, [], []) \<and> w = (True, Some T, []))
   \<or> (\<exists>m. v = (False, None, [m], [Resolve_results]) \<and> w = (False, None, [Resolve_msg m]))
   \<or> (v = (False, None, [], [Reject (Timeout_Only_received 0 1)])
      \<and> (\<exists>reg st. w = (reg, None,
            Reject_named (Wait_Timeout_Message_not_received_within T) # st)))"

definition sim :: "'m client_named \<Rightarrow> 'm client \<Rightarrow> bool" where
  "sim t s \<longleftrightarrow>
     invar s \<and> pure_state s \<and> next_call_named t = next_call s \<and> distinct (listeners t)
   \<and> (\<forall>k. if k < next_call s
          then (\<exists>P T. closures_named t k = Some (WaitFor_named (\<lambda>m. Returns (P m)) T)
                  \<and> closures s k = Some (WaitFor (\<lambda>m. Returns (P m)) 1 T)
                  \<and> rel_view T (view k s) (view_named k t))
          else k \<notin> set (listeners t) \<and> timers_named t k = None \<and> settled_named t k = []
               \<and> closures_named t k = None)"

section \<open>Every reachable state satisfies the invariant\<close>

lemma set_entries: "set (entries hs) = {k. Some k \<in> set hs}"
  by (induction hs rule: entries.induct) auto

lemma entries_append: "entries (xs @ ys) = entries xs @ entries ys"
  by (induction xs rule: entries.induct) auto

lemma entries_set_delete: "entries (set_delete k hs) = removeAll k (entries hs)"
  by (induction hs rule: entries.induct) (auto simp: set_delete_def)

lemma set_set_delete: "Some j \<in> set (set_delete k hs) \<longleftrightarrow> Some j \<in> set hs \<and> j \<noteq> k"
  by (auto simp: set_delete_def)

lemma set_set_add: "Some j \<in> set (set_add k hs) \<longleftrightarrow> Some j \<in> set hs \<or> j = k"
  by (auto simp: set_add_def)

lemma evolves_refl: "evolves s s"
  by (simp add: evolves_def)

lemma evolves_trans: "evolves s t \<Longrightarrow> evolves t u \<Longrightarrow> evolves s u"
  by (auto simp: evolves_def)

lemma invar_init: "invar init"
  by (simp add: invar_def init_def)

lemma invar_perform: "invar s \<Longrightarrow> invar (perform c s)"
  by (cases c)
     (auto simp: invar_def waitFor_def waitForSilence_def Let_def set_add_def
                 entries_append set_entries less_Suc_eq)

lemma evolves_perform: "invar s \<Longrightarrow> evolves s (perform c s)"
  by (cases c) (auto simp: invar_def evolves_def waitFor_def waitForSilence_def Let_def)

lemma perform_keeps_handlers:
  "Some j \<in> set (messageHandlers s) \<Longrightarrow> Some j \<in> set (messageHandlers (perform c s))"
  by (cases c) (auto simp: waitFor_def waitForSilence_def Let_def set_add_def)

lemma perform_keeps_closure:
  "invar s \<Longrightarrow> Some j \<in> set (messageHandlers s) \<Longrightarrow> closures (perform c s) j = closures s j"
  by (cases c) (auto simp: invar_def waitFor_def waitForSilence_def Let_def)

lemma evaluate_invar:
  "invar s \<Longrightarrow> invar (snd (evaluate b s)) \<and> evolves s (snd (evaluate b s))"
proof (induction b arbitrary: s)
  case (Calls c b)
  then show ?case
    using invar_perform [of s c] evolves_perform [of s c] evolves_trans by fastforce
qed (simp_all add: evolves_refl)

lemma evaluate_keeps:
  "invar s \<Longrightarrow> Some j \<in> set (messageHandlers s) \<Longrightarrow>
     Some j \<in> set (messageHandlers (snd (evaluate b s)))
     \<and> closures (snd (evaluate b s)) j = closures s j"
proof (induction b arbitrary: s)
  case (Calls c b)
  then show ?case
    using invar_perform [of s c] perform_keeps_handlers [of j s c] perform_keeps_closure [of s j c]
    by simp
qed simp_all

lemma matched_invar:
  "invar s \<Longrightarrow> Some k \<in> set (messageHandlers s) \<Longrightarrow>
     invar (matched k c msg s) \<and> evolves s (matched k c msg s)"
  by (cases c)
     (auto simp: invar_def evolves_def waitFor_matched_def waitForSilence_matched_def Let_def
                 cleanup_def settle_def set_set_delete entries_set_delete distinct_removeAll)

lemma handler_invar:
  assumes "invar s" "Some k \<in> set (messageHandlers s)"
  shows "invar (snd (handler k msg s)) \<and> evolves s (snd (handler k msg s))"
proof -
  let ?s0 = "s\<lparr>delivered := delivered s @ [(k, msg)]\<rparr>"
  have i0: "invar ?s0" and e0: "evolves s ?s0" and r0: "Some k \<in> set (messageHandlers ?s0)"
    using assms by (simp_all add: invar_def evolves_def)
  obtain c where c: "closures ?s0 k = Some c"
    using assms by (auto simp: invar_def)
  obtain r s1 where ev: "evaluate (condition_of c msg) ?s0 = (r, s1)"
    by (cases "evaluate (condition_of c msg) ?s0")
  have i1: "invar s1" and e1: "evolves ?s0 s1"
    using evaluate_invar [OF i0, of "condition_of c msg"] ev by simp_all
  have r1: "Some k \<in> set (messageHandlers s1)"
    using evaluate_keeps [OF i0 r0, of "condition_of c msg"] ev by simp
  have h: "snd (handler k msg s) = (case r of Inl e \<Rightarrow> s1 | Inr b \<Rightarrow> if b then matched k c msg s1 else s1)"
    using c ev by (simp add: handler_def Let_def split: sum.splits)
  show ?thesis
    using h i1 e0 e1 matched_invar [OF i1 r1, of c msg] evolves_trans
    by (auto split: sum.splits intro: evolves_trans)
qed

lemma forEach_invar:
  assumes "forEach i msg s = Some y" "invar s"
  shows "invar (snd y) \<and> evolves s (snd y)"
proof -
  have "invar s \<longrightarrow> invar (snd y) \<and> evolves s (snd y)"
  proof (rule forEach.raw_induct
      [where P = "\<lambda>i msg s y. invar s \<longrightarrow> invar (snd y) \<and> evolves s (snd y)", OF _ assms(1)])
    fix f :: "nat \<Rightarrow> 'a \<Rightarrow> 'a client \<Rightarrow> (exn option \<times> 'a client) option"
    fix i msg s y
    assume IH: "\<And>i msg s y. f i msg s = Some y \<Longrightarrow> invar s \<longrightarrow> invar (snd y) \<and> evolves s (snd y)"
    assume body: "(if i < length (messageHandlers s) then
        (case messageHandlers s ! i of
           None \<Rightarrow> f (Suc i) msg s
         | Some k \<Rightarrow>
             (case handler k msg s of
                (None, s1) \<Rightarrow> f (Suc i) msg s1
              | (Some e, s1) \<Rightarrow> Some (Some e, s1)))
      else Some (None, s)) = Some y"
    show "invar s \<longrightarrow> invar (snd y) \<and> evolves s (snd y)"
    proof
      assume inv: "invar s"
      show "invar (snd y) \<and> evolves s (snd y)"
      proof (cases "i < length (messageHandlers s)")
        case False
        with body inv show ?thesis by (auto simp: evolves_refl)
      next
        case lt: True
        show ?thesis
        proof (cases "messageHandlers s ! i")
          case None
          with body lt IH inv show ?thesis by simp
        next
          case (Some k)
          then have reg: "Some k \<in> set (messageHandlers s)"
            using lt by (metis nth_mem)
          obtain r s1 where h: "handler k msg s = (r, s1)"
            by (cases "handler k msg s")
          have i1: "invar s1" and e1: "evolves s s1"
            using handler_invar [OF inv reg, of msg] h by simp_all
          show ?thesis
          proof (cases r)
            case None
            then have "f (Suc i) msg s1 = Some y"
              using body lt Some h by simp
            from IH [OF this] i1 e1 show ?thesis
              by (auto intro: evolves_trans)
          next
            case (Some e)
            then have "y = (Some e, s1)"
              using body lt \<open>messageHandlers s ! i = Some k\<close> h by auto
            with i1 e1 show ?thesis by simp
          qed
        qed
      qed
    qed
  qed
  with assms(2) show ?thesis by simp
qed

lemma on_message_invar:
  assumes "on_message msg s = Some s'" "invar s"
  shows "invar s' \<and> evolves s s'"
proof -
  obtain r s1 where f: "forEach 0 msg s = Some (r, s1)"
    using assms(1) by (auto simp: on_message_def split: option.splits)
  have "invar s1" "evolves s s1"
    using forEach_invar [OF f assms(2)] by simp_all
  moreover have "s' = s1 \<or> (\<exists>e. s' = s1\<lparr>uncaught := uncaught s1 @ [e]\<rparr>)"
    using assms(1) f by (auto simp: on_message_def split: option.splits)
  ultimately show ?thesis
    by (auto simp: invar_def evolves_def)
qed

lemma timer_callback_invar:
  "invar s \<Longrightarrow> timers s k = Some t \<Longrightarrow>
     invar (timer_callback k c (s\<lparr>timers := (timers s)(k := None)\<rparr>))
     \<and> evolves s (timer_callback k c (s\<lparr>timers := (timers s)(k := None)\<rparr>))"
  by (cases c)
     (auto simp: invar_def evolves_def cleanup_def settle_def Let_def set_set_delete
                 entries_set_delete distinct_removeAll)

lemma timer_fires_invar:
  "invar s \<Longrightarrow> invar (timer_fires k s) \<and> evolves s (timer_fires k s)"
proof (cases "timers s k")
  case None
  assume "invar s"
  with None show ?thesis by (simp add: timer_fires_def evolves_refl)
next
  case (Some t)
  assume inv: "invar s"
  show ?thesis
  proof (cases "closures s k")
    case None
    with Some inv show ?thesis
      by (auto simp: timer_fires_def Let_def invar_def evolves_def)
  next
    case c: (Some c)
    with Some timer_callback_invar [OF inv Some, of c] show ?thesis
      by (simp add: timer_fires_def Let_def)
  qed
qed

lemma step_invar:
  assumes "step e s = Some s'" "invar s"
  shows "invar s' \<and> evolves s s'"
proof (cases e)
  case (Invoke c)
  with assms show ?thesis using invar_perform [of s c] evolves_perform [of s c] by auto
next
  case (Message m)
  with assms show ?thesis using on_message_invar [of m s s'] by auto
next
  case Unparsable
  with assms show ?thesis by (auto simp: invar_def evolves_def)
next
  case (Expire k)
  with assms show ?thesis using timer_fires_invar [of s k] by auto
qed

lemma run_invar:
  "run es s = Some s' \<Longrightarrow> invar s \<Longrightarrow> invar s' \<and> evolves s s'"
proof (induction es arbitrary: s)
  case Nil
  then show ?case by (simp add: evolves_refl)
next
  case (Cons e es)
  then obtain s1 where s1: "step e s = Some s1" "run es s1 = Some s'"
    by (auto split: option.splits)
  from step_invar [OF s1(1) Cons.prems(2)] Cons.IH [OF s1(2)] show ?case
    by (auto intro: evolves_trans)
qed

lemma run_append:
  "run (es @ fs) s = (case run es s of None \<Rightarrow> None | Some s1 \<Rightarrow> run fs s1)"
  by (induction es arbitrary: s) (auto split: option.splits)

lemma cleanup_idem: "cleanup k (cleanup k s) = cleanup k s"
  by (simp add: cleanup_def set_delete_def)

text \<open>The definitions a concrete run unfolds to.\<close>

lemmas client_simps =
  init_def on_message_def handler_def waitFor_def waitForSilence_def set_add_def set_delete_def
  timer_fires_def cleanup_def settle_def promise_def waitFor_matched_def
  waitForSilence_matched_def Let_def

section \<open>Delivery to handlers whose conditions return\<close>

lemma handler_returns:
  assumes "closures s k = Some c" "condition_of c m = Returns b"
  shows "handler k m s =
    (None, if b then matched k c m (s\<lparr>delivered := delivered s @ [(k, m)]\<rparr>)
           else s\<lparr>delivered := delivered s @ [(k, m)]\<rparr>)"
  using assms by (simp add: handler_def Let_def)

lemma deliver_frame:
  assumes "closures s k = Some c" "condition_of c m = Returns b"
  shows "closures (deliver k m s) = closures s"
    and "next_call (deliver k m s) = next_call s"
    and "uncaught (deliver k m s) = uncaught s"
    and "delivered (deliver k m s) = delivered s @ [(k, m)]"
    and "messageHandlers (deliver k m s) = messageHandlers s
         \<or> messageHandlers (deliver k m s) = set_delete k (messageHandlers s)"
    and "j \<noteq> k \<Longrightarrow> view j (deliver k m s) = view j s"
  using assms
  by (cases c; simp add: deliver_def handler_returns view_def waitFor_matched_def
        waitForSilence_matched_def cleanup_def settle_def Let_def set_set_delete)+

lemma deliver_view:
  assumes "closures s k = Some c" "condition_of c m = Returns b"
  shows "view k (deliver k m s) = react c m (view k s)"
  using assms
  by (cases c; cases b; simp add: deliver_def handler_returns view_def waitFor_matched_def
        waitForSilence_matched_def cleanup_def settle_def Let_def set_set_delete)

lemma distinct_entries_later:
  assumes "distinct (entries hs)" "i < length hs" "hs ! i = Some k"
  shows "Some k \<notin> set (drop (Suc i) hs)"
proof -
  have "hs = take i hs @ Some k # drop (Suc i) hs"
    using assms(2,3) by (metis id_take_nth_drop)
  then have "entries hs = entries (take i hs) @ k # entries (drop (Suc i) hs)"
    by (metis entries_append entries.simps(3))
  with assms(1) have "k \<notin> set (entries (drop (Suc i) hs))"
    by auto
  then show ?thesis by (simp add: set_entries)
qed

lemma set_delete_absent: "Some k \<notin> set hs \<Longrightarrow> set_delete k hs = hs"
  by (induction hs) (auto simp: set_delete_def)

lemma drop_set_delete: "drop n (set_delete k hs) = set_delete k (drop n hs)"
  by (simp add: set_delete_def drop_map)

lemma length_set_delete: "length (set_delete k hs) = length hs"
  by (simp add: set_delete_def)

lemma visited_empty: "visited i i hs = []"
  by (simp add: visited_def)

lemma visited_step:
  assumes "i < j" "j \<le> length hs"
  shows "visited i j hs = (case hs ! i of None \<Rightarrow> [] | Some k \<Rightarrow> [k]) @ visited (Suc i) j hs"
proof -
  have "drop i hs = hs ! i # drop (Suc i) hs"
    using assms by (simp add: Cons_nth_drop_Suc)
  moreover have "j - i = Suc (j - Suc i)"
    using assms by simp
  ultimately show ?thesis
    by (cases "hs ! i") (simp_all add: visited_def)
qed

lemma visits_refl: "visits i i m s s"
  by (simp add: visits_def visited_empty)

lemma deliver_later_slots:
  assumes "invar s" "i < length (messageHandlers s)" "messageHandlers s ! i = Some k"
    and "closures s k = Some c" "condition_of c m = Returns b"
  shows "drop (Suc i) (messageHandlers (deliver k m s)) = drop (Suc i) (messageHandlers s)"
    and "length (messageHandlers (deliver k m s)) = length (messageHandlers s)"
proof -
  have "Some k \<notin> set (drop (Suc i) (messageHandlers s))"
    using assms(1-3) distinct_entries_later by (simp add: invar_def)
  then have "set_delete k (drop (Suc i) (messageHandlers s)) = drop (Suc i) (messageHandlers s)"
    by (rule set_delete_absent)
  then show "drop (Suc i) (messageHandlers (deliver k m s)) = drop (Suc i) (messageHandlers s)"
    using deliver_frame(5) [OF assms(4,5)] by (auto simp: drop_set_delete)
  show "length (messageHandlers (deliver k m s)) = length (messageHandlers s)"
    using deliver_frame(5) [OF assms(4,5)] by (auto simp: length_set_delete)
qed

lemma deliver_invar:
  assumes "invar s" "Some k \<in> set (messageHandlers s)"
  shows "invar (deliver k m s)"
  using handler_invar [OF assms] by (simp add: deliver_def)

lemma forEach_range:
  assumes "invar s" "i \<le> j" "j \<le> length (messageHandlers s)"
    and "\<forall>n k. i \<le> n \<and> n < j \<and> messageHandlers s ! n = Some k \<longrightarrow> returns_at s k m"
  shows "\<exists>s'. forEach i m s = forEach j m s' \<and> invar s' \<and> visits i j m s s'"
  using assms
proof (induction "j - i" arbitrary: i s)
  case 0
  then have "i = j" by simp
  then have "forEach i m s = forEach j m s \<and> invar s \<and> visits i j m s s"
    using "0.prems"(1) by (simp add: visits_refl)
  then show ?case by (rule exI)
next
  case (Suc n)
  then have lt: "i < j" and len: "i < length (messageHandlers s)" by simp_all
  have n: "n = j - Suc i" using Suc.hyps(2) by simp
  show ?case
  proof (cases "messageHandlers s ! i")
    case None
    have ret: "\<forall>n k. Suc i \<le> n \<and> n < j \<and> messageHandlers s ! n = Some k \<longrightarrow> returns_at s k m"
    proof (intro allI impI)
      fix n k
      assume "Suc i \<le> n \<and> n < j \<and> messageHandlers s ! n = Some k"
      then have "i \<le> n \<and> n < j \<and> messageHandlers s ! n = Some k" by simp
      with Suc.prems(4) show "returns_at s k m" by blast
    qed
    obtain s' where s': "forEach (Suc i) m s = forEach j m s'" "invar s'" "visits (Suc i) j m s s'"
      using Suc.hyps(1) [OF n Suc.prems(1) _ Suc.prems(3) ret] lt by auto
    have "forEach i m s = forEach (Suc i) m s"
      using len None by (subst forEach.simps) simp
    moreover have "visited i j (messageHandlers s) = visited (Suc i) j (messageHandlers s)"
      using visited_step [OF lt Suc.prems(3)] None by simp
    ultimately show ?thesis
      using s' by (auto simp: visits_def)
  next
    case (Some k)
    then obtain c b where c: "closures s k = Some c" "condition_of c m = Returns b"
      using Suc.prems(4) lt unfolding returns_at_def by blast
    let ?s1 = "deliver k m s"
    have reg: "Some k \<in> set (messageHandlers s)"
      using Some len by (metis nth_mem)
    have i1: "invar ?s1"
      using deliver_invar [OF Suc.prems(1) reg] .
    have slots: "drop (Suc i) (messageHandlers ?s1) = drop (Suc i) (messageHandlers s)"
      and len1: "length (messageHandlers ?s1) = length (messageHandlers s)"
      using deliver_later_slots [OF Suc.prems(1) len Some c] by simp_all
    have nth1: "messageHandlers ?s1 ! n = messageHandlers s ! n" if "Suc i \<le> n" "n < j" for n
    proof -
      have "n < length (messageHandlers s)" using that Suc.prems(3) by simp
      then have "messageHandlers s ! n = drop (Suc i) (messageHandlers s) ! (n - Suc i)"
        "messageHandlers ?s1 ! n = drop (Suc i) (messageHandlers ?s1) ! (n - Suc i)"
        using that len1 by simp_all
      then show ?thesis using slots by simp
    qed
    have cl1: "closures ?s1 = closures s"
      using deliver_frame(1) [OF c] .
    have ret: "\<forall>n k. Suc i \<le> n \<and> n < j \<and> messageHandlers ?s1 ! n = Some k \<longrightarrow> returns_at ?s1 k m"
    proof (intro allI impI)
      fix n k'
      assume a: "Suc i \<le> n \<and> n < j \<and> messageHandlers ?s1 ! n = Some k'"
      then have "i \<le> n \<and> n < j \<and> messageHandlers s ! n = Some k'"
        using nth1 [of n] by simp
      with Suc.prems(4) have "returns_at s k' m" by blast
      then show "returns_at ?s1 k' m" by (simp add: returns_at_def cl1)
    qed
    have j1: "j \<le> length (messageHandlers ?s1)"
      using len1 Suc.prems(3) by simp
    obtain s' where s': "forEach (Suc i) m ?s1 = forEach j m s'" "invar s'" "visits (Suc i) j m ?s1 s'"
      using Suc.hyps(1) [OF n i1 _ j1 ret] lt by auto
    have f: "forEach i m s = forEach (Suc i) m ?s1"
      using len Some handler_returns [OF c] by (subst forEach.simps) (simp add: deliver_def)
    have v: "visited i j (messageHandlers s) = k # visited (Suc i) j (messageHandlers s)"
      using visited_step [OF lt Suc.prems(3)] Some by simp
    have v1: "visited (Suc i) j (messageHandlers ?s1) = visited (Suc i) j (messageHandlers s)"
      using slots by (simp add: visited_def)
    have knot: "k \<notin> set (visited (Suc i) j (messageHandlers s))"
    proof -
      have "Some k \<notin> set (drop (Suc i) (messageHandlers s))"
        using Suc.prems(1) len Some distinct_entries_later by (simp add: invar_def)
      then have "Some k \<notin> set (take (j - Suc i) (drop (Suc i) (messageHandlers s)))"
        by (meson in_set_takeD)
      then show ?thesis by (simp add: visited_def set_entries)
    qed
    have dj: "drop j (messageHandlers ?s1) = drop j (messageHandlers s)"
    proof -
      have "drop (j - Suc i) (drop (Suc i) (messageHandlers ?s1))
          = drop (j - Suc i) (drop (Suc i) (messageHandlers s))"
        using slots by simp
      then show ?thesis using lt by simp
    qed
    have views: "view k' s' =
          (if k' \<in> set (visited i j (messageHandlers s))
           then react (the (closures s k')) m (view k' s) else view k' s)" for k'
    proof (cases "k' = k")
      case True
      then have "view k' s' = view k ?s1"
        using s'(3) knot v1 by (simp add: visits_def)
      also have "\<dots> = react c m (view k s)"
        using deliver_view [OF c] .
      finally show ?thesis using True v c by simp
    next
      case False
      then have "view k' ?s1 = view k' s"
        using deliver_frame(6) [OF c] by simp
      then show ?thesis
        using s'(3) v v1 cl1 False by (simp add: visits_def)
    qed
    have "visits i j m s s'"
      unfolding visits_def
      using s'(3) cl1 deliver_frame(2,3,4) [OF c] len1 dj v v1 views
      by (simp add: visits_def)
    with f s' show ?thesis by auto
  qed
qed

section \<open>Runs in which every condition only tests the message\<close>

lemma visited_all: "visited 0 (length hs) hs = entries hs"
  by (simp add: visited_def)

lemma pure_state_init: "pure_state init"
  by (simp add: pure_state_def init_def)

lemma pure_state_perform: "pure_state s \<Longrightarrow> pure_call c \<Longrightarrow> pure_state (perform c s)"
  by (cases c) (auto simp: pure_state_def waitFor_def waitForSilence_def Let_def)

lemma pure_returns_at:
  "invar s \<Longrightarrow> pure_state s \<Longrightarrow> Some k \<in> set (messageHandlers s) \<Longrightarrow> returns_at s k m"
  unfolding invar_def pure_state_def pure_call_def returns_at_def by blast

lemma forEach_end: "forEach (length (messageHandlers s)) m s = Some (None, s)"
  by (subst forEach.simps) simp

lemma on_message_pure:
  assumes "invar s" "pure_state s"
  shows "\<exists>s'. on_message m s = Some s' \<and> invar s' \<and> pure_state s'
            \<and> visits 0 (length (messageHandlers s)) m s s'"
proof -
  have "\<forall>n k. 0 \<le> n \<and> n < length (messageHandlers s) \<and> messageHandlers s ! n = Some k
          \<longrightarrow> returns_at s k m"
    using pure_returns_at [OF assms] by (metis nth_mem)
  from forEach_range [OF assms(1) _ _ this]
  obtain s' where s': "forEach 0 m s = forEach (length (messageHandlers s)) m s'"
    "invar s'" "visits 0 (length (messageHandlers s)) m s s'"
    by auto
  have "length (messageHandlers s') = length (messageHandlers s)" "closures s' = closures s"
    using s'(3) by (simp_all add: visits_def)
  then have "forEach 0 m s = Some (None, s')" "pure_state s'"
    using s'(1) forEach_end [of s' m] assms(2) by (simp_all add: pure_state_def)
  then show ?thesis
    using s'(2,3) by (simp add: on_message_def)
qed

lemma view_perform:
  assumes "invar s" "Some k \<in> set (messageHandlers s)"
  shows "view k (perform c s) = view k s" "closures (perform c s) k = closures s k"
proof -
  have "k < next_call s" using assms by (simp add: invar_def)
  then show "view k (perform c s) = view k s" "closures (perform c s) k = closures s k"
    using assms(2)
    by (cases c; simp add: view_def waitFor_def waitForSilence_def Let_def set_set_add)+
qed

lemma closures_timer_callback: "closures (timer_callback j c t) = closures t"
  by (cases c) (simp_all add: cleanup_def settle_def Let_def)

lemma closures_timer_fires: "closures (timer_fires j s) = closures s"
  by (simp add: timer_fires_def Let_def closures_timer_callback split: option.splits)

lemma view_timer_fires:
  assumes "j \<noteq> k"
  shows "view k (timer_fires j s) = view k s"
proof -
  have "view k (timer_callback j c t) = view k t" for c and t :: "'a client"
    using assms by (cases c) (simp_all add: view_def cleanup_def settle_def Let_def set_set_delete)
  then show ?thesis
    using assms by (auto simp: timer_fires_def Let_def view_def split: option.splits)
qed

lemma pure_state_closures: "closures s' = closures s \<Longrightarrow> pure_state s \<Longrightarrow> pure_state s'"
  by (simp add: pure_state_def)

lemma step_pure:
  assumes "invar s" "pure_state s" "pure_event e"
  shows "\<exists>s'. step e s = Some s' \<and> invar s' \<and> pure_state s'"
proof (cases e)
  case (Invoke c)
  with assms show ?thesis by (simp add: invar_perform pure_state_perform)
next
  case (Message m)
  with on_message_pure [OF assms(1,2), of m] show ?thesis by auto
next
  case Unparsable
  with assms show ?thesis by (simp add: invar_def pure_state_def)
next
  case (Expire j)
  with assms timer_fires_invar [of s j] closures_timer_fires [of j s] show ?thesis
    by (simp add: pure_state_closures)
qed

lemma run_pure:
  assumes "invar s" "pure_state s" "\<forall>e \<in> set es. pure_event e"
  shows "\<exists>s'. run es s = Some s' \<and> invar s' \<and> pure_state s'"
  using assms
proof (induction es arbitrary: s)
  case Nil
  then show ?case by simp
next
  case (Cons e es)
  then obtain s1 where "step e s = Some s1" "invar s1" "pure_state s1"
    using step_pure [of s e] by auto
  with Cons.IH [of s1] Cons.prems(3) show ?case by simp
qed

lemma step_active:
  assumes "invar s" "pure_state s" "pure_event e" "active k c s" "e \<noteq> Expire k"
  shows "\<exists>s'. step e s = Some s' \<and> invar s' \<and> pure_state s' \<and> closures s' k = Some c
            \<and> view k s' = (case e of Message m \<Rightarrow> react c m (view k s) | _ \<Rightarrow> view k s)"
proof -
  have reg: "Some k \<in> set (messageHandlers s)" and c: "closures s k = Some c"
    using assms(4) by (simp_all add: active_def)
  obtain s' where s': "step e s = Some s'" "invar s'" "pure_state s'"
    using step_pure [OF assms(1-3)] by auto
  show ?thesis
  proof (cases e)
    case (Invoke c')
    with s' view_perform [OF assms(1) reg, of c'] c show ?thesis by simp
  next
    case (Message m)
    obtain t where t: "on_message m s = Some t" "visits 0 (length (messageHandlers s)) m s t"
      using on_message_pure [OF assms(1,2), of m] by auto
    have "k \<in> set (entries (messageHandlers s))"
      using reg by (simp add: set_entries)
    then have "view k t = react c m (view k s)" "closures t k = Some c"
      using t(2) c by (simp_all add: visits_def visited_all)
    with Message s' t(1) show ?thesis by simp
  next
    case Unparsable
    with s' c show ?thesis by (auto simp: view_def)
  next
    case (Expire j)
    with assms(5) have "j \<noteq> k" by simp
    with Expire s' view_timer_fires [of j k s] closures_timer_fires [of j s] c show ?thesis
      by auto
  qed
qed

lemma active_viewI:
  assumes "active k c s" "view k s' = view k s" "closures s' k = Some c"
  shows "active k c s'" "results s' k = results s k"
  using assms by (simp_all add: active_def view_def)

lemma active_perform:
  assumes "invar s"
  shows "active (next_call s) c (perform c s)"
  using assms
  by (cases c) (simp_all add: active_def invar_def waitFor_def waitForSilence_def Let_def set_set_add)

lemma results_waitFor: "results (waitFor condition count timeout s) (next_call s) = []"
  by (simp add: waitFor_def Let_def)

lemma waitFor_collects:
  assumes "invar s" "pure_state s" "\<forall>e \<in> set es. pure_event e" "Expire k \<notin> set es"
    and "active k (WaitFor condition count timeout) s"
    and "\<forall>n. 1 \<le> n \<and> n \<le> length (filter (\<lambda>m. condition m = Returns True) (messages es))
           \<longrightarrow> real (length (results s k) + n) \<noteq> count"
  shows "\<exists>s'. run es s = Some s' \<and> invar s' \<and> pure_state s'
           \<and> active k (WaitFor condition count timeout) s'
           \<and> results s' k = results s k @ filter (\<lambda>m. condition m = Returns True) (messages es)"
  using assms
proof (induction es arbitrary: s)
  case Nil
  then show ?case by simp
next
  case (Cons e es)
  let ?c = "WaitFor condition count timeout"
  let ?hit = "\<lambda>m. condition m = Returns True"
  have ne: "e \<noteq> Expire k" and pe: "pure_event e" using Cons.prems(3,4) by auto
  obtain s1 where s1: "step e s = Some s1" "invar s1" "pure_state s1" "closures s1 k = Some ?c"
    and v: "view k s1 = (case e of Message m \<Rightarrow> react ?c m (view k s) | _ \<Rightarrow> view k s)"
    using step_active [OF Cons.prems(1,2) pe Cons.prems(5) ne] by blast
  have rest: "\<forall>e \<in> set es. pure_event e" "Expire k \<notin> set es"
    using Cons.prems(3,4) by simp_all
  show ?case
  proof (cases "\<exists>m. e = Message m \<and> ?hit m")
    case True
    then obtain m where m: "e = Message m" "?hit m" by blast
    have ms: "filter ?hit (messages (e # es)) = m # filter ?hit (messages es)"
      using m by simp
    have "1 \<le> (1::nat) \<and> 1 \<le> length (filter ?hit (messages (e # es)))"
      using ms by simp
    then have "real (length (results s k) + 1) \<noteq> count"
      using Cons.prems(6) by blast
    then have v1: "view k s1 = (Some k \<in> set (messageHandlers s), timers s k, results s k @ [m], settled s k)"
      using v m by (simp add: view_def)
    have a1: "active k ?c s1" and r1: "results s1 k = results s k @ [m]"
      using Cons.prems(5) s1(4) v1 by (simp_all add: active_def view_def)
    have "\<forall>n. 1 \<le> n \<and> n \<le> length (filter ?hit (messages es))
           \<longrightarrow> real (length (results s1 k) + n) \<noteq> count"
    proof (intro allI impI)
      fix n
      assume "1 \<le> n \<and> n \<le> length (filter ?hit (messages es))"
      then have "1 \<le> Suc n \<and> Suc n \<le> length (filter ?hit (messages (e # es)))"
        using ms by simp
      then have "real (length (results s k) + Suc n) \<noteq> count"
        using Cons.prems(6) by blast
      then show "real (length (results s1 k) + n) \<noteq> count"
        using r1 by simp
    qed
    from Cons.IH [OF s1(2,3) rest a1 this] s1(1) r1 ms show ?thesis
      by auto
  next
    case False
    then have ms: "filter ?hit (messages (e # es)) = filter ?hit (messages es)"
      by (cases e) auto
    have "view k s1 = view k s"
      using v False by (cases e) (auto simp: view_def)
    then have a1: "active k ?c s1" and r1: "results s1 k = results s k"
      using active_viewI [OF Cons.prems(5) _ s1(4)] by simp_all
    have "\<forall>n. 1 \<le> n \<and> n \<le> length (filter ?hit (messages es))
           \<longrightarrow> real (length (results s1 k) + n) \<noteq> count"
      using Cons.prems(6) ms r1 by simp
    from Cons.IH [OF s1(2,3) rest a1 this] s1(1) r1 ms show ?thesis
      by auto
  qed
qed

lemma waitFor_completes:
  assumes "invar s" "pure_state s" "active k (WaitFor condition count timeout) s"
    and "condition m = Returns True" "real (length (results s k) + 1) = count"
  shows "\<exists>s'. step (Message m) s = Some s' \<and> invar s' \<and> pure_state s'
           \<and> settled s' k = [Resolve_results] \<and> results s' k = results s k @ [m]"
proof -
  obtain s' where s': "step (Message m) s = Some s'" "invar s'" "pure_state s'"
    and v: "view k s' = react (WaitFor condition count timeout) m (view k s)"
    using step_active [OF assms(1,2) _ assms(3), of "Message m"] by auto
  have "settled s k = []" using assms(3) by (simp add: active_def)
  then have "settled s' k = [Resolve_results] \<and> results s' k = results s k @ [m]"
    using v assms(4,5) by (simp add: view_def)
  with s' show ?thesis by simp
qed

lemma silence_holds:
  assumes "invar s" "pure_state s" "\<forall>e \<in> set es. pure_event e" "Expire k \<notin> set es"
    and "active k (WaitForSilence condition timeout) s"
    and "filter (\<lambda>m. condition m = Returns True) (messages es) = []"
  shows "\<exists>s'. run es s = Some s' \<and> invar s' \<and> pure_state s'
           \<and> active k (WaitForSilence condition timeout) s'"
  using assms
proof (induction es arbitrary: s)
  case Nil
  then show ?case by simp
next
  case (Cons e es)
  let ?c = "WaitForSilence condition timeout"
  have ne: "e \<noteq> Expire k" and pe: "pure_event e" using Cons.prems(3,4) by auto
  obtain s1 where s1: "step e s = Some s1" "invar s1" "pure_state s1" "closures s1 k = Some ?c"
    and v: "view k s1 = (case e of Message m \<Rightarrow> react ?c m (view k s) | _ \<Rightarrow> view k s)"
    using step_active [OF Cons.prems(1,2) pe Cons.prems(5) ne] by blast
  have rest: "\<forall>e \<in> set es. pure_event e" "Expire k \<notin> set es"
    using Cons.prems(3,4) by simp_all
  have quiet: "filter (\<lambda>m. condition m = Returns True) (messages es) = []"
    and this_one: "\<And>m. e = Message m \<Longrightarrow> condition m \<noteq> Returns True"
    using Cons.prems(6) by (cases e; auto split: if_splits)+
  have "view k s1 = view k s"
    using v this_one by (cases e) (auto simp: view_def)
  then have a1: "active k ?c s1"
    using active_viewI(1) [OF Cons.prems(5) _ s1(4)] by simp
  from Cons.IH [OF s1(2,3) rest a1 quiet] s1(1) show ?case
    by auto
qed

lemma silence_breaks:
  assumes "invar s" "pure_state s" "active k (WaitForSilence condition timeout) s"
    and "condition m = Returns True"
  shows "\<exists>s'. step (Message m) s = Some s' \<and> invar s' \<and> pure_state s'
           \<and> settled s' k = [Reject Message_received_during_silence_window]
           \<and> Some k \<notin> set (messageHandlers s') \<and> timers s' k = None"
proof -
  obtain s' where s': "step (Message m) s = Some s'" "invar s'" "pure_state s'"
    and v: "view k s' = react (WaitForSilence condition timeout) m (view k s)"
    using step_active [OF assms(1,2) _ assms(3), of "Message m"] by auto
  have "settled s k = []" using assms(3) by (simp add: active_def)
  then have "settled s' k = [Reject Message_received_during_silence_window]
           \<and> Some k \<notin> set (messageHandlers s') \<and> timers s' k = None"
    using v assms(4) by (simp add: view_def)
  with s' show ?thesis by simp
qed

lemma expire_waitFor:
  assumes "active k (WaitFor condition count timeout) s"
  shows "settled (timer_fires k s) k = [Reject (Timeout_Only_received (length (results s k)) count)]"
    and "results (timer_fires k s) k = results s k"
  using assms
  by (auto simp: active_def timer_fires_def Let_def cleanup_def settle_def)

lemma expire_silence:
  assumes "active k (WaitForSilence condition timeout) s"
  shows "settled (timer_fires k s) k = [Resolve_void]"
  using assms
  by (auto simp: active_def timer_fires_def Let_def cleanup_def settle_def)

lemma messages_append: "messages (es @ fs) = messages es @ messages fs"
  by (induction es rule: messages.induct) simp_all

lemma nth_match_split:
  assumes "1 \<le> N" "N \<le> length (filter P (messages es))"
  shows "\<exists>e1 m e2. es = e1 @ Message m # e2 \<and> P m \<and> length (filter P (messages e1)) = N - 1"
  using assms
proof (induction es arbitrary: N)
  case Nil
  then show ?case by simp
next
  case (Cons e es)
  show ?case
  proof (cases "\<exists>m. e = Message m \<and> P m")
    case True
    then obtain m where m: "e = Message m" "P m" by blast
    show ?thesis
    proof (cases "N = 1")
      case True
      with m have "e # es = [] @ Message m # es \<and> P m \<and> length (filter P (messages [])) = N - 1"
        by simp
      then show ?thesis by blast
    next
      case False
      with Cons.prems m have "1 \<le> N - 1" "N - 1 \<le> length (filter P (messages es))"
        by simp_all
      from Cons.IH [OF this] obtain e1 m' e2 where
        "es = e1 @ Message m' # e2" "P m'" "length (filter P (messages e1)) = N - 1 - 1"
        by blast
      with m False Cons.prems(1)
      have "e # es = (e # e1) @ Message m' # e2 \<and> P m' \<and> length (filter P (messages (e # e1))) = N - 1"
        by simp
      then show ?thesis by blast
    qed
  next
    case False
    then have ms: "filter P (messages (e # es)) = filter P (messages es)"
      by (cases e) auto
    with Cons.prems have "N \<le> length (filter P (messages es))" by simp
    from Cons.IH [OF Cons.prems(1) this] obtain e1 m' e2 where
      e: "es = e1 @ Message m' # e2" "P m'" "length (filter P (messages e1)) = N - 1"
      by blast
    have "filter P (messages (e # e1)) = filter P (messages e1)"
      using False by (cases e) auto
    with e have "e # es = (e # e1) @ Message m' # e2 \<and> P m' \<and> length (filter P (messages (e # e1))) = N - 1"
      by simp
    then show ?thesis by blast
  qed
qed

lemma reachable_pure:
  assumes "\<forall>e \<in> set pre. pure_event e" "run pre init = Some s"
  shows "invar s" "pure_state s"
  using run_pure [OF invar_init pure_state_init assms(1)] assms(2) by auto

lemma pure_call_test: "pure_call (WaitFor (\<lambda>m. Returns (P m)) count timeout)"
  "pure_call (WaitForSilence (\<lambda>m. Returns (P m)) timeout)"
  by (simp_all add: pure_call_def)

lemma after_call:
  assumes "invar s" "pure_state s" "pure_call c"
  shows "invar (perform c s)" "pure_state (perform c s)" "active (next_call s) c (perform c s)"
  using assms by (simp_all add: invar_perform pure_state_perform active_perform)

lemma settled_stays:
  assumes "invar s" "run es s = Some s'" "settled s k \<noteq> []"
  shows "settled s' k = settled s k" "results s' k = results s k" "promise k s' = promise k s"
proof -
  have "evolves s s'" using run_invar [OF assms(2,1)] by simp
  then show "settled s' k = settled s k" "results s' k = results s k"
    using assms(3) unfolding evolves_def by blast+
  then show "promise k s' = promise k s"
    by (simp add: promise_def split: list.splits settlement.splits)
qed

lemma hit_test: "(\<lambda>m. Returns (P m) = Returns True) = P"
  by auto

lemma promise_pending: "settled s k = [] \<Longrightarrow> promise k s = Pending"
  by (simp add: promise_def)

lemma promise_rejected: "settled s k = [Reject e] \<Longrightarrow> promise k s = Rejected e"
  by (simp add: promise_def)

lemma promise_void: "settled s k = [Resolve_void] \<Longrightarrow> promise k s = Fulfilled_void"
  by (simp add: promise_def)

lemma waitFor_pending:
  assumes "\<forall>e \<in> set (pre @ es). pure_event e"
    and "run pre init = Some s"
    and "Expire (next_call s) \<notin> set es"
    and "\<forall>n. 1 \<le> n \<and> n \<le> length (filter P (messages es)) \<longrightarrow> real n \<noteq> count"
  shows "\<exists>s1. run (Invoke (WaitFor (\<lambda>m. Returns (P m)) count T) # es) s = Some s1
           \<and> invar s1 \<and> pure_state s1
           \<and> active (next_call s) (WaitFor (\<lambda>m. Returns (P m)) count T) s1
           \<and> results s1 (next_call s) = filter P (messages es)"
proof -
  let ?c = "WaitFor (\<lambda>m. Returns (P m)) count T"
  let ?k = "next_call s"
  let ?s0 = "perform ?c s"
  have s: "invar s" "pure_state s"
    using reachable_pure [OF _ assms(2)] assms(1) by auto
  have s0: "invar ?s0" "pure_state ?s0" "active ?k ?c ?s0"
    using after_call [OF s pure_call_test(1)] by blast+
  have r0: "results ?s0 ?k = []"
    by (simp add: results_waitFor)
  have p1: "\<forall>e \<in> set es. pure_event e"
    using assms(1) by auto
  have "\<forall>n. 1 \<le> n \<and> n \<le> length (filter (\<lambda>m. Returns (P m) = Returns True) (messages es))
          \<longrightarrow> real (length (results ?s0 ?k) + n) \<noteq> count"
    using assms(4) r0 by (simp add: hit_test)
  from waitFor_collects [OF s0(1,2) p1 assms(3) s0(3) this]
  show ?thesis using r0 by (simp add: hit_test)
qed

lemma silence_pending:
  assumes "\<forall>e \<in> set (pre @ es). pure_event e"
    and "run pre init = Some s"
    and "Expire (next_call s) \<notin> set es"
    and "filter P (messages es) = []"
  shows "\<exists>s1. run (Invoke (WaitForSilence (\<lambda>m. Returns (P m)) W) # es) s = Some s1
           \<and> invar s1 \<and> pure_state s1
           \<and> active (next_call s) (WaitForSilence (\<lambda>m. Returns (P m)) W) s1"
proof -
  let ?c = "WaitForSilence (\<lambda>m. Returns (P m)) W"
  let ?s0 = "perform ?c s"
  have s: "invar s" "pure_state s"
    using reachable_pure [OF _ assms(2)] assms(1) by auto
  have s0: "invar ?s0" "pure_state ?s0" "active (next_call s) ?c ?s0"
    using after_call [OF s pure_call_test(2)] by blast+
  have p1: "\<forall>e \<in> set es. pure_event e"
    using assms(1) by auto
  have "filter (\<lambda>m. Returns (P m) = Returns True) (messages es) = []"
    using assms(4) by (simp add: hit_test)
  from silence_holds [OF s0(1,2) p1 assms(3) s0(3) this]
  show ?thesis by simp
qed

lemma silence_first_match:
  assumes "\<forall>e \<in> set (pre @ e1). pure_event e"
    and "run pre init = Some s"
    and "Expire (next_call s) \<notin> set e1"
    and "filter P (messages e1) = []" "P m"
  shows "\<exists>t1 t2. run (Invoke (WaitForSilence (\<lambda>m. Returns (P m)) W) # e1) s = Some t1
           \<and> promise (next_call s) t1 = Pending
           \<and> step (Message m) t1 = Some t2 \<and> invar t2 \<and> pure_state t2
           \<and> settled t2 (next_call s) = [Reject Message_received_during_silence_window]
           \<and> Some (next_call s) \<notin> set (messageHandlers t2) \<and> timers t2 (next_call s) = None"
proof -
  let ?c = "WaitForSilence (\<lambda>m. Returns (P m)) W"
  let ?k = "next_call s"
  obtain t1 where t1: "run (Invoke ?c # e1) s = Some t1" "invar t1" "pure_state t1" "active ?k ?c t1"
    using silence_pending [where W = W, OF assms(1-4)] by blast
  have "promise ?k t1 = Pending"
    using t1(4) by (simp add: active_def promise_pending)
  moreover obtain t2 where "step (Message m) t1 = Some t2" "invar t2" "pure_state t2"
    "settled t2 ?k = [Reject Message_received_during_silence_window]"
    "Some ?k \<notin> set (messageHandlers t2)" "timers t2 ?k = None"
    using silence_breaks [OF t1(2,3,4), of m] assms(5) by auto
  ultimately show ?thesis using t1(1) by blast
qed

section \<open>Conditions that throw\<close>

lemma distinct_entries_earlier:
  assumes "distinct (entries hs)" "Some k \<in> set (drop j hs)"
  shows "k \<notin> set (entries (take j hs))"
proof -
  have "entries hs = entries (take j hs) @ entries (drop j hs)"
    by (metis append_take_drop_id entries_append)
  moreover have "k \<in> set (entries (drop j hs))"
    using assms(2) by (simp add: set_entries)
  ultimately show ?thesis using assms(1) by auto
qed

lemma visited_prefix: "visited 0 j hs = entries (take j hs)"
  by (simp add: visited_def)

lemma handler_throws:
  assumes "closures s k = Some c" "condition_of c m = Throws e"
  shows "handler k m s = (Some (Predicate_threw e), s\<lparr>delivered := delivered s @ [(k, m)]\<rparr>)"
  using assms by (simp add: handler_def Let_def)

lemma reachable_invar: "run pre init = Some s \<Longrightarrow> invar s"
  using run_invar [OF _ invar_init] by blast

section \<open>The walk is live\<close>

lemma slots_grow_refl: "slots_grow hs hs"
  by (simp add: slots_grow_def)

lemma slots_grow_trans: "slots_grow a b \<Longrightarrow> slots_grow b c \<Longrightarrow> slots_grow a c"
  unfolding slots_grow_def by (metis le_trans less_le_trans)

lemma perform_appends:
  assumes "invar s"
  shows "messageHandlers (perform c s) = messageHandlers s @ [Some (next_call s)]"
    and "next_call (perform c s) = Suc (next_call s)"
    and "delivered (perform c s) = delivered s"
    and "uncaught (perform c s) = uncaught s"
proof -
  have "Some (next_call s) \<notin> set (messageHandlers s)"
    using assms unfolding invar_def by (metis less_irrefl)
  then show "messageHandlers (perform c s) = messageHandlers s @ [Some (next_call s)]"
    by (cases c) (simp_all add: waitFor_def waitForSilence_def Let_def set_add_def)
  show "next_call (perform c s) = Suc (next_call s)" "delivered (perform c s) = delivered s"
    "uncaught (perform c s) = uncaught s"
    by (cases c; simp add: waitFor_def waitForSilence_def Let_def)+
qed

lemma evaluate_appends:
  assumes "invar s"
  shows "\<exists>xs. messageHandlers (snd (evaluate b s)) = messageHandlers s @ xs
           \<and> (\<forall>k. next_call s \<le> k \<and> k < next_call (snd (evaluate b s)) \<longrightarrow> Some k \<in> set xs)
           \<and> next_call s \<le> next_call (snd (evaluate b s))
           \<and> delivered (snd (evaluate b s)) = delivered s
           \<and> uncaught (snd (evaluate b s)) = uncaught s"
  using assms
proof (induction b arbitrary: s)
  case (Calls c b)
  let ?s1 = "perform c s"
  have i1: "invar ?s1" using Calls.prems by (rule invar_perform)
  obtain xs where xs: "messageHandlers (snd (evaluate b ?s1)) = messageHandlers ?s1 @ xs"
    "\<forall>k. next_call ?s1 \<le> k \<and> k < next_call (snd (evaluate b ?s1)) \<longrightarrow> Some k \<in> set xs"
    "next_call ?s1 \<le> next_call (snd (evaluate b ?s1))"
    "delivered (snd (evaluate b ?s1)) = delivered ?s1"
    "uncaught (snd (evaluate b ?s1)) = uncaught ?s1"
    using Calls.IH [OF i1] by blast
  let ?ys = "Some (next_call s) # xs"
  have "messageHandlers (snd (evaluate (Calls c b) s)) = messageHandlers s @ ?ys"
    using xs(1) perform_appends(1) [OF Calls.prems] by simp
  moreover have "\<forall>k. next_call s \<le> k \<and> k < next_call (snd (evaluate (Calls c b) s))
       \<longrightarrow> Some k \<in> set ?ys"
  proof (intro allI impI)
    fix k
    assume a: "next_call s \<le> k \<and> k < next_call (snd (evaluate (Calls c b) s))"
    show "Some k \<in> set ?ys"
    proof (cases "k = next_call s")
      case True
      then show ?thesis by simp
    next
      case False
      with a have "next_call ?s1 \<le> k \<and> k < next_call (snd (evaluate b ?s1))"
        using perform_appends(2) [OF Calls.prems, of c] by simp
      with xs(2) show ?thesis by simp
    qed
  qed
  moreover have "next_call s \<le> next_call (snd (evaluate (Calls c b) s))"
    using xs(3) perform_appends(2) [OF Calls.prems, of c] by simp
  moreover have "delivered (snd (evaluate (Calls c b) s)) = delivered s"
    using xs(4) perform_appends(3) [OF Calls.prems, of c] by simp
  moreover have "uncaught (snd (evaluate (Calls c b) s)) = uncaught s"
    using xs(5) perform_appends(4) [OF Calls.prems, of c] by simp
  ultimately show ?case by blast
qed simp_all

lemma matched_slots:
  "messageHandlers (matched k c m s) = messageHandlers s
   \<or> messageHandlers (matched k c m s) = set_delete k (messageHandlers s)"
  "next_call (matched k c m s) = next_call s"
  "delivered (matched k c m s) = delivered s"
  "uncaught (matched k c m s) = uncaught s"
  by (cases c; simp add: waitFor_matched_def waitForSilence_matched_def cleanup_def settle_def Let_def)+

lemma nth_set_delete:
  "n < length hs \<Longrightarrow> set_delete k hs ! n = (if hs ! n = Some k then None else hs ! n)"
  by (simp add: set_delete_def)

lemma handler_walk:
  assumes "invar s" "Some k \<in> set (messageHandlers s)"
  shows "delivered (snd (handler k m s)) = delivered s @ [(k, m)]"
    and "next_call s \<le> next_call (snd (handler k m s))"
    and "length (messageHandlers s) \<le> length (messageHandlers (snd (handler k m s)))"
    and "\<forall>n < length (messageHandlers s).
           messageHandlers (snd (handler k m s)) ! n = messageHandlers s ! n
         \<or> (messageHandlers s ! n = Some k \<and> messageHandlers (snd (handler k m s)) ! n = None)"
    and "\<forall>k'. next_call s \<le> k' \<and> k' < next_call (snd (handler k m s)) \<longrightarrow>
           (\<exists>n. length (messageHandlers s) \<le> n \<and> n < length (messageHandlers (snd (handler k m s)))
               \<and> messageHandlers (snd (handler k m s)) ! n = Some k')"
    and "uncaught (snd (handler k m s)) = uncaught s"
proof -
  let ?s0 = "s\<lparr>delivered := delivered s @ [(k, m)]\<rparr>"
  let ?hs = "messageHandlers s"
  have i0: "invar ?s0" using assms(1) by (simp add: invar_def)
  obtain c where c: "closures ?s0 k = Some c"
    using assms by (auto simp: invar_def)
  obtain r s1 where ev: "evaluate (condition_of c m) ?s0 = (r, s1)"
    by (cases "evaluate (condition_of c m) ?s0")
  obtain xs where xs: "messageHandlers s1 = ?hs @ xs"
    "\<forall>k'. next_call s \<le> k' \<and> k' < next_call s1 \<longrightarrow> Some k' \<in> set xs"
    "next_call s \<le> next_call s1" "delivered s1 = delivered s @ [(k, m)]"
    "uncaught s1 = uncaught s"
    using evaluate_appends [OF i0, of "condition_of c m"] ev by auto
  let ?s2 = "snd (handler k m s)"
  have h: "?s2 = (case r of Inl e \<Rightarrow> s1 | Inr b \<Rightarrow> if b then matched k c m s1 else s1)"
    using c ev by (simp add: handler_def Let_def split: sum.splits)
  then have cases: "?s2 = s1 \<or> ?s2 = matched k c m s1"
    by (auto split: sum.splits)
  then have hs2: "messageHandlers ?s2 = ?hs @ xs \<or> messageHandlers ?s2 = set_delete k (?hs @ xs)"
    and n2: "next_call ?s2 = next_call s1" and d2: "delivered ?s2 = delivered s1"
    and u2: "uncaught ?s2 = uncaught s1"
    using matched_slots [of k c m s1] xs(1) by auto
  show "uncaught ?s2 = uncaught s" using u2 xs(5) by simp
  show "delivered ?s2 = delivered s @ [(k, m)]" using d2 xs(4) by simp
  show "next_call s \<le> next_call ?s2" using n2 xs(3) by simp
  show "length ?hs \<le> length (messageHandlers ?s2)"
    using hs2 by (auto simp: length_set_delete)
  show "\<forall>n < length ?hs. messageHandlers ?s2 ! n = ?hs ! n
         \<or> (?hs ! n = Some k \<and> messageHandlers ?s2 ! n = None)"
  proof (intro allI impI)
    fix n
    assume n: "n < length ?hs"
    then have "(?hs @ xs) ! n = ?hs ! n" "n < length (?hs @ xs)"
      by (simp_all add: nth_append)
    then show "messageHandlers ?s2 ! n = ?hs ! n
         \<or> (?hs ! n = Some k \<and> messageHandlers ?s2 ! n = None)"
      using hs2 nth_set_delete [of n "?hs @ xs" k] by (auto split: if_splits)
  qed
  show "\<forall>k'. next_call s \<le> k' \<and> k' < next_call ?s2 \<longrightarrow>
           (\<exists>n. length ?hs \<le> n \<and> n < length (messageHandlers ?s2)
               \<and> messageHandlers ?s2 ! n = Some k')"
  proof (intro allI impI)
    fix k'
    assume a: "next_call s \<le> k' \<and> k' < next_call ?s2"
    then have "Some k' \<in> set xs" using xs(2) n2 by simp
    then obtain j where j: "j < length xs" "xs ! j = Some k'"
      by (metis in_set_conv_nth)
    have "k < next_call s" using assms by (simp add: invar_def)
    with a have ne: "k' \<noteq> k" by auto
    let ?n = "length ?hs + j"
    have "(?hs @ xs) ! ?n = Some k'" "?n < length (?hs @ xs)"
      using j by (simp_all add: nth_append)
    then have "messageHandlers ?s2 ! ?n = Some k'" "?n < length (messageHandlers ?s2)"
      using hs2 ne by (auto simp: nth_set_delete length_set_delete)
    then show "\<exists>n. length ?hs \<le> n \<and> n < length (messageHandlers ?s2)
               \<and> messageHandlers ?s2 ! n = Some k'"
      by (intro exI [of _ ?n]) simp
  qed
qed

lemma walked_end:
  assumes "invar s" "\<not> i < length (messageHandlers s)"
  shows "walked i m s (None, s)"
  using assms by (simp add: walked_def slots_grow_refl)

lemma walked_skip:
  assumes "walked (Suc i) m s y" "messageHandlers s ! i = None"
  shows "walked i m s y"
proof -
  have up: "Suc i \<le> n" if "i \<le> n" "messageHandlers s ! n = Some k" for n k
    using that assms(2) by (cases "n = i") auto
  from assms(1) obtain l where l: "delivered (snd y) = delivered s @ l"
    and l1: "fst y = None \<longrightarrow>
             (\<forall>n k. Suc i \<le> n \<and> n < length (messageHandlers s) \<and> messageHandlers s ! n = Some k
                    \<longrightarrow> (k, m) \<in> set l)
           \<and> (\<forall>k. next_call s \<le> k \<and> k < next_call (snd y) \<longrightarrow> (k, m) \<in> set l)"
    unfolding walked_def by (elim conjE exE)
  have "fst y = None \<longrightarrow>
             (\<forall>n k. i \<le> n \<and> n < length (messageHandlers s) \<and> messageHandlers s ! n = Some k
                    \<longrightarrow> (k, m) \<in> set l)
           \<and> (\<forall>k. next_call s \<le> k \<and> k < next_call (snd y) \<longrightarrow> (k, m) \<in> set l)"
    using l1 up by (meson)
  with l have "\<exists>l. delivered (snd y) = delivered s @ l \<and> (fst y = None \<longrightarrow>
             (\<forall>n k. i \<le> n \<and> n < length (messageHandlers s) \<and> messageHandlers s ! n = Some k
                    \<longrightarrow> (k, m) \<in> set l)
           \<and> (\<forall>k. next_call s \<le> k \<and> k < next_call (snd y) \<longrightarrow> (k, m) \<in> set l))"
    by (intro exI [of _ l] conjI)
  with assms(1) show ?thesis
    by (simp add: walked_def)
qed

lemma walked_threw:
  assumes "invar s" "Some k \<in> set (messageHandlers s)" "handler k m s = (Some e, s1)"
  shows "walked i m s (Some e, s1)"
proof -
  have "snd (handler k m s) = s1" using assms(3) by simp
  then show ?thesis
    using handler_invar [OF assms(1,2), of m] handler_walk(1-4,6) [OF assms(1,2), of m]
    by (auto simp: walked_def slots_grow_def)
qed

lemma walked_visit:
  assumes "invar s" "i < length (messageHandlers s)" "messageHandlers s ! i = Some k"
    and "handler k m s = (None, s1)" "walked (Suc i) m s1 y"
  shows "walked i m s y"
proof -
  let ?hs = "messageHandlers s" and ?hs1 = "messageHandlers s1" and ?hsy = "messageHandlers (snd y)"
  have reg: "Some k \<in> set ?hs" using assms(2,3) by (metis nth_mem)
  have s1: "snd (handler k m s) = s1" using assms(4) by simp
  note h = handler_walk [OF assms(1) reg, of m, unfolded s1]
  from assms(5) obtain l where l: "delivered (snd y) = delivered s1 @ l"
    and ll: "fst y = None \<longrightarrow>
             (\<forall>n k. Suc i \<le> n \<and> n < length ?hs1 \<and> ?hs1 ! n = Some k \<longrightarrow> (k, m) \<in> set l)
           \<and> (\<forall>k. next_call s1 \<le> k \<and> k < next_call (snd y) \<longrightarrow> (k, m) \<in> set l)"
    unfolding walked_def by (elim conjE exE)
  have l1: "(k', m) \<in> set l"
    if "fst y = None" "Suc i \<le> n" "n < length ?hs1" "?hs1 ! n = Some k'" for n k'
    using ll that by simp
  have l2: "(k', m) \<in> set l"
    if "fst y = None" "next_call s1 \<le> k'" "k' < next_call (snd y)" for k'
    using ll that by simp
  have g1: "slots_grow ?hs ?hs1"
    using h(3,4) by (auto simp: slots_grow_def)
  have g: "slots_grow ?hs ?hsy"
    using slots_grow_trans [OF g1] assms(5) by (simp add: walked_def)
  have nx: "next_call s \<le> next_call (snd y)" "uncaught (snd y) = uncaught s"
    using h(2,6) assms(5) by (simp_all add: walked_def)
  have d: "delivered (snd y) = delivered s @ ((k, m) # l)"
    using l h(1) by simp
  have old: "(k', m) \<in> set ((k, m) # l)"
    if a: "fst y = None" "i \<le> n" "n < length ?hs" "?hs ! n = Some k'" for n k'
  proof (cases "k' = k")
    case True
    then show ?thesis by simp
  next
    case False
    then have "n \<noteq> i" using a(4) assms(3) by auto
    then have "Suc i \<le> n" using a(2) by simp
    moreover have "?hs1 ! n = Some k'" "n < length ?hs1"
      using h(3,4) a(3,4) False by auto
    ultimately show ?thesis using l1 [OF a(1)] by simp
  qed
  have new: "(k', m) \<in> set ((k, m) # l)"
    if a: "fst y = None" "next_call s \<le> k'" "k' < next_call (snd y)" for k'
  proof (cases "k' < next_call s1")
    case True
    then obtain n where n: "length ?hs \<le> n" "n < length ?hs1" "?hs1 ! n = Some k'"
      using h(5) a(2) by blast
    moreover from n(1) assms(2) have "Suc i \<le> n" by simp
    ultimately show ?thesis using l1 [OF a(1)] by simp
  next
    case False
    then show ?thesis using l2 [OF a(1) _ a(3)] by simp
  qed
  have "fst y = None \<longrightarrow>
             (\<forall>n k'. i \<le> n \<and> n < length ?hs \<and> ?hs ! n = Some k' \<longrightarrow> (k', m) \<in> set ((k, m) # l))
           \<and> (\<forall>k'. next_call s \<le> k' \<and> k' < next_call (snd y) \<longrightarrow> (k', m) \<in> set ((k, m) # l))"
    using old new by blast
  with d have "\<exists>l. delivered (snd y) = delivered s @ l \<and> (fst y = None \<longrightarrow>
             (\<forall>n k'. i \<le> n \<and> n < length ?hs \<and> ?hs ! n = Some k' \<longrightarrow> (k', m) \<in> set l)
           \<and> (\<forall>k'. next_call s \<le> k' \<and> k' < next_call (snd y) \<longrightarrow> (k', m) \<in> set l))"
    by (intro exI [of _ "(k, m) # l"] conjI)
  moreover have "invar (snd y)" using assms(5) by (simp add: walked_def)
  ultimately show ?thesis
    using g nx by (simp add: walked_def)
qed

lemma forEach_walked:
  assumes "forEach i m s = Some y" "invar s"
  shows "walked i m s y"
proof -
  have "invar s \<longrightarrow> walked i m s y"
  proof (rule forEach.raw_induct
      [where P = "\<lambda>i m s y. invar s \<longrightarrow> walked i m s y", OF _ assms(1)])
    fix f :: "nat \<Rightarrow> 'a \<Rightarrow> 'a client \<Rightarrow> (exn option \<times> 'a client) option"
    fix i m s y
    assume IH: "\<And>i m s y. f i m s = Some y \<Longrightarrow> invar s \<longrightarrow> walked i m s y"
    assume body: "(if i < length (messageHandlers s) then
        (case messageHandlers s ! i of
           None \<Rightarrow> f (Suc i) m s
         | Some k \<Rightarrow>
             (case handler k m s of
                (None, s1) \<Rightarrow> f (Suc i) m s1
              | (Some e, s1) \<Rightarrow> Some (Some e, s1)))
      else Some (None, s)) = Some y"
    show "invar s \<longrightarrow> walked i m s y"
    proof
      assume inv: "invar s"
      show "walked i m s y"
      proof (cases "i < length (messageHandlers s)")
        case False
        with body have "y = (None, s)" by simp
        with walked_end [OF inv False] show ?thesis by simp
      next
        case lt: True
        show ?thesis
        proof (cases "messageHandlers s ! i")
          case None
          with body lt have "f (Suc i) m s = Some y" by simp
          with IH inv have "walked (Suc i) m s y" by blast
          then show ?thesis using None by (rule walked_skip)
        next
          case (Some k)
          then have reg: "Some k \<in> set (messageHandlers s)"
            using lt by (metis nth_mem)
          obtain r s1 where h: "handler k m s = (r, s1)"
            by (cases "handler k m s")
          have i1: "invar s1"
            using handler_invar [OF inv reg, of m] h by simp
          show ?thesis
          proof (cases r)
            case None
            then have "f (Suc i) m s1 = Some y"
              using body lt Some h by simp
            with IH i1 have w: "walked (Suc i) m s1 y" by blast
            have "handler k m s = (None, s1)" using h None by simp
            from walked_visit [OF inv lt Some this w] show ?thesis .
          next
            case e: (Some e)
            then have "y = (Some e, s1)"
              using body lt Some h by auto
            with walked_threw [OF inv reg] h e show ?thesis by simp
          qed
        qed
      qed
    qed
  qed
  with assms(2) show ?thesis by simp
qed

section \<open>The named-export client simulates the default-export client\<close>

lemma sim_init: "sim init_named init"
  by (simp add: sim_def invar_init pure_state_init) (simp add: init_def init_named_def)

lemma in_removeListener:
  "j \<noteq> k \<Longrightarrow> j \<in> set (removeListener k ls) \<longleftrightarrow> j \<in> set ls"
  by (simp add: removeListener_def)

lemma removeListener_gone: "distinct ls \<Longrightarrow> k \<notin> set (removeListener k ls)"
  by (simp add: removeListener_def)

lemma distinct_removeListener: "distinct ls \<Longrightarrow> distinct (removeListener k ls)"
  by (simp add: removeListener_def)

lemma listener_named_pure:
  assumes "closures_named t k = Some (WaitFor_named (\<lambda>m. Returns (P m)) T)"
  shows "listener_named k (Some m) t = (None, if P m then matched_named k m t else t)"
  using assms by (simp add: listener_named_def)

lemma listener_named_view:
  assumes "closures_named t k = Some (WaitFor_named (\<lambda>m. Returns (P m)) T)" "distinct (listeners t)"
  shows "fst (listener_named k (Some m) t) = None"
    and "closures_named (snd (listener_named k (Some m) t)) = closures_named t"
    and "next_call_named (snd (listener_named k (Some m) t)) = next_call_named t"
    and "uncaught_named (snd (listener_named k (Some m) t)) = uncaught_named t"
    and "distinct (listeners (snd (listener_named k (Some m) t)))"
    and "view_named k (snd (listener_named k (Some m) t))
           = react_named (holds_named t k m) m (view_named k t)"
    and "\<And>j. j \<noteq> k \<Longrightarrow> view_named j (snd (listener_named k (Some m) t)) = view_named j t"
  using assms
  by (simp_all add: listener_named_pure matched_named_def settle_named_def view_named_def
        holds_named_def removeListener_gone distinct_removeListener in_removeListener)

lemma emit_named_pure:
  assumes "distinct ks" "distinct (listeners t)"
    and "\<forall>k \<in> set ks. \<exists>P T. closures_named t k = Some (WaitFor_named (\<lambda>m. Returns (P m)) T)"
  shows "\<exists>t'. emit_named ks (Some m) t = (None, t')
           \<and> closures_named t' = closures_named t \<and> next_call_named t' = next_call_named t
           \<and> uncaught_named t' = uncaught_named t \<and> distinct (listeners t')
           \<and> (\<forall>k. view_named k t' =
                 (if k \<in> set ks then react_named (holds_named t k m) m (view_named k t)
                  else view_named k t))"
  using assms
proof (induction ks arbitrary: t)
  case Nil
  then show ?case by simp
next
  case (Cons k ks)
  obtain P T where c: "closures_named t k = Some (WaitFor_named (\<lambda>m. Returns (P m)) T)"
    using Cons.prems(3) by auto
  let ?t1 = "snd (listener_named k (Some m) t)"
  note l = listener_named_view [OF c Cons.prems(2), where m = m]
  have e: "emit_named (k # ks) (Some m) t = emit_named ks (Some m) ?t1"
    using l(1) by (cases "listener_named k (Some m) t") simp
  have "\<forall>k \<in> set ks. \<exists>P T. closures_named ?t1 k = Some (WaitFor_named (\<lambda>m. Returns (P m)) T)"
    using Cons.prems(3) l(2) by simp
  from Cons.IH [OF _ l(5) this] Cons.prems(1)
  obtain t' where t': "emit_named ks (Some m) ?t1 = (None, t')"
    "closures_named t' = closures_named ?t1" "next_call_named t' = next_call_named ?t1"
    "uncaught_named t' = uncaught_named ?t1" "distinct (listeners t')"
    and v: "\<And>j. view_named j t' =
                 (if j \<in> set ks then react_named (holds_named ?t1 j m) m (view_named j ?t1)
                  else view_named j ?t1)"
    by auto
  have hn: "holds_named ?t1 j m = holds_named t j m" for j
    using l(2) by (simp add: holds_named_def)
  have "view_named j t' =
          (if j \<in> set (k # ks) then react_named (holds_named t j m) m (view_named j t)
           else view_named j t)" for j
  proof (cases "j = k")
    case True
    then have "j \<notin> set ks" using Cons.prems(1) by simp
    then show ?thesis using v [of j] l(6) True by simp
  next
    case False
    then show ?thesis using v [of j] l(7) [of j] hn by simp
  qed
  then show ?case
    using e t' l(2,3,4) by simp
qed

lemma rel_react:
  assumes "rel_view T v w"
  shows "rel_view T (if fst v then react (WaitFor (\<lambda>m. Returns (P m)) 1 T') m v else v)
                    (if fst w then react_named (P m) m w else w)"
  using assms unfolding rel_view_def by (cases "P m") auto

lemma simD:
  assumes "sim t s"
  shows "invar s" "pure_state s" "next_call_named t = next_call s" "distinct (listeners t)"
    and "\<And>k. k < next_call s \<Longrightarrow>
           \<exists>P T. closures_named t k = Some (WaitFor_named (\<lambda>m. Returns (P m)) T)
                  \<and> closures s k = Some (WaitFor (\<lambda>m. Returns (P m)) 1 T)
                  \<and> rel_view T (view k s) (view_named k t)"
    and "\<And>k. \<not> k < next_call s \<Longrightarrow>
           k \<notin> set (listeners t) \<and> timers_named t k = None \<and> settled_named t k = []
           \<and> closures_named t k = None"
proof -
  show "invar s" "pure_state s" "next_call_named t = next_call s" "distinct (listeners t)"
    using assms by (simp_all add: sim_def)
  have a: "\<forall>k. if k < next_call s
          then (\<exists>P T. closures_named t k = Some (WaitFor_named (\<lambda>m. Returns (P m)) T)
                  \<and> closures s k = Some (WaitFor (\<lambda>m. Returns (P m)) 1 T)
                  \<and> rel_view T (view k s) (view_named k t))
          else k \<notin> set (listeners t) \<and> timers_named t k = None \<and> settled_named t k = []
               \<and> closures_named t k = None"
    using assms by (simp add: sim_def)
  show "\<exists>P T. closures_named t k = Some (WaitFor_named (\<lambda>m. Returns (P m)) T)
                  \<and> closures s k = Some (WaitFor (\<lambda>m. Returns (P m)) 1 T)
                  \<and> rel_view T (view k s) (view_named k t)" if "k < next_call s" for k
    using a [rule_format, of k] that by simp
  show "k \<notin> set (listeners t) \<and> timers_named t k = None \<and> settled_named t k = []
           \<and> closures_named t k = None" if "\<not> k < next_call s" for k
    using a [rule_format, of k] that by simp
qed

lemma simI:
  assumes "invar s" "pure_state s" "next_call_named t = next_call s" "distinct (listeners t)"
    and "\<And>k. k < next_call s \<Longrightarrow>
           \<exists>P T. closures_named t k = Some (WaitFor_named (\<lambda>m. Returns (P m)) T)
                  \<and> closures s k = Some (WaitFor (\<lambda>m. Returns (P m)) 1 T)
                  \<and> rel_view T (view k s) (view_named k t)"
    and "\<And>k. \<not> k < next_call s \<Longrightarrow>
           k \<notin> set (listeners t) \<and> timers_named t k = None \<and> settled_named t k = []
           \<and> closures_named t k = None"
  shows "sim t s"
  unfolding sim_def using assms by simp

lemma sim_corresponds:
  assumes "sim t s"
  shows "corresponds (promise_named k t) (promise k s)"
proof (cases "k < next_call s")
  case True
  then obtain P T where "rel_view T (view k s) (view_named k t)"
    using simD(5) [OF assms] by blast
  then show ?thesis
    unfolding rel_view_def view_def view_named_def
    by (auto simp: promise_def promise_named_def)
next
  case False
  then have "settled_named t k = []" "settled s k = []"
    using simD(6) [OF assms False] simD(1) [OF assms] by (simp_all add: invar_def)
  then show ?thesis by (simp add: promise_def promise_named_def)
qed

lemma sim_message:
  assumes "sim t s"
  shows "\<exists>s'. on_message m s = Some s' \<and> sim (on_frame_named (Some m) t) s'"
proof -
  note d = simD [OF assms]
  obtain s' where s': "on_message m s = Some s'" "invar s'" "pure_state s'"
    and vis: "visits 0 (length (messageHandlers s)) m s s'"
    using on_message_pure [OF d(1,2), of m] by blast
  have cl: "closures s' = closures s" and nx: "next_call s' = next_call s"
    and vs: "\<And>k. view k s' = (if fst (view k s) then react (the (closures s k)) m (view k s)
                              else view k s)"
    using vis by (simp_all add: visits_def visited_all set_entries view_def)
  have "\<forall>k \<in> set (listeners t). \<exists>P T. closures_named t k = Some (WaitFor_named (\<lambda>m. Returns (P m)) T)"
    using d(5,6) by blast
  from emit_named_pure [OF d(4) d(4) this, of m]
  obtain t' where t': "emit_named (listeners t) (Some m) t = (None, t')"
    "closures_named t' = closures_named t" "next_call_named t' = next_call_named t"
    "distinct (listeners t')"
    and vt: "\<And>k. view_named k t' =
                 (if fst (view_named k t) then react_named (holds_named t k m) m (view_named k t)
                  else view_named k t)"
    by (auto simp: view_named_def)
  have ft: "on_frame_named (Some m) t = t'"
    using t'(1) by (simp add: on_frame_named_def)
  have "sim t' s'"
  proof (rule simI)
    show "invar s'" "pure_state s'" by fact+
    show "next_call_named t' = next_call s'" using t'(3) nx d(3) by simp
    show "distinct (listeners t')" by fact
  next
    fix k
    assume "k < next_call s'"
    then obtain P T where c: "closures_named t k = Some (WaitFor_named (\<lambda>m. Returns (P m)) T)"
      "closures s k = Some (WaitFor (\<lambda>m. Returns (P m)) 1 T)"
      and r: "rel_view T (view k s) (view_named k t)"
      using d(5) [of k] nx by auto
    have hn: "holds_named t k m = P m"
      using c(1) by (simp add: holds_named_def)
    have a: "view k s' = (if fst (view k s)
                then react (WaitFor (\<lambda>m. Returns (P m)) 1 T) m (view k s) else view k s)"
      using vs [of k] c(2) by simp
    have b: "view_named k t' = (if fst (view_named k t)
                then react_named (P m) m (view_named k t) else view_named k t)"
      using vt [of k] hn by simp
    have "rel_view T (view k s') (view_named k t')"
      unfolding a b using r by (rule rel_react)
    then show "\<exists>P T. closures_named t' k = Some (WaitFor_named (\<lambda>m. Returns (P m)) T)
                  \<and> closures s' k = Some (WaitFor (\<lambda>m. Returns (P m)) 1 T)
                  \<and> rel_view T (view k s') (view_named k t')"
      using c t'(2) cl by auto
  next
    fix k
    assume "\<not> k < next_call s'"
    then have old: "k \<notin> set (listeners t) \<and> timers_named t k = None \<and> settled_named t k = []
           \<and> closures_named t k = None"
      using d(6) [of k] nx by simp
    then have "view_named k t' = view_named k t"
      using vt [of k] by (simp add: view_named_def)
    then show "k \<notin> set (listeners t') \<and> timers_named t' k = None \<and> settled_named t' k = []
           \<and> closures_named t' k = None"
      using old t'(2) by (simp add: view_named_def)
  qed
  with s'(1) ft show ?thesis by simp
qed

lemma sim_invoke:
  assumes "sim t s"
  shows "sim (perform_named (WaitFor_named (\<lambda>m. Returns (P m)) T) t)
             (perform (WaitFor (\<lambda>m. Returns (P m)) 1 T) s)"
proof (rule simI)
  note d = simD [OF assms]
  let ?c = "WaitFor (\<lambda>m. Returns (P m)) 1 T"
  let ?t' = "perform_named (WaitFor_named (\<lambda>m. Returns (P m)) T) t"
  let ?s' = "perform ?c s"
  let ?k0 = "next_call s"
  have fresh: "?k0 \<notin> set (listeners t)" "settled_named t ?k0 = []"
    using d(6) [of ?k0] by simp_all
  have newfresh: "settled s ?k0 = []" "Some ?k0 \<notin> set (messageHandlers s)"
    using d(1) unfolding invar_def by (metis le_refl, metis less_irrefl)
  show "invar ?s'" "pure_state ?s'"
    using after_call(1,2) [OF d(1,2) pure_call_test(1)] by blast+
  show "next_call_named ?t' = next_call ?s'"
    using d(3) by (simp add: waitFor_def waitFor_named_def Let_def)
  show "distinct (listeners ?t')"
    using d(3,4) fresh by (simp add: waitFor_named_def Let_def)
  show "\<exists>P T. closures_named ?t' k = Some (WaitFor_named (\<lambda>m. Returns (P m)) T)
                  \<and> closures ?s' k = Some (WaitFor (\<lambda>m. Returns (P m)) 1 T)
                  \<and> rel_view T (view k ?s') (view_named k ?t')" if "k < next_call ?s'" for k
  proof (cases "k = ?k0")
    case True
    have "view k ?s' = (True, Some T, [], [])" "view_named k ?t' = (True, Some T, [])"
      using True d(3) fresh newfresh
      by (simp_all add: view_def view_named_def waitFor_def waitFor_named_def Let_def set_set_add)
    then have "rel_view T (view k ?s') (view_named k ?t')"
      by (simp add: rel_view_def)
    moreover have "closures_named ?t' k = Some (WaitFor_named (\<lambda>m. Returns (P m)) T)"
      "closures ?s' k = Some ?c"
      using True d(3) by (simp_all add: waitFor_def waitFor_named_def Let_def)
    ultimately show ?thesis by blast
  next
    case False
    with that have lt: "k < next_call s"
      by (simp add: waitFor_def Let_def)
    have "view k ?s' = view k s" "view_named k ?t' = view_named k t"
      "closures_named ?t' k = closures_named t k" "closures ?s' k = closures s k"
      using False d(3)
      by (simp_all add: view_def view_named_def waitFor_def waitFor_named_def Let_def set_set_add)
    then show ?thesis using d(5) [OF lt] by simp
  qed
  show "k \<notin> set (listeners ?t') \<and> timers_named ?t' k = None \<and> settled_named ?t' k = []
           \<and> closures_named ?t' k = None" if "\<not> k < next_call ?s'" for k
  proof -
    from that have "\<not> k < next_call s" "k \<noteq> ?k0"
      by (simp_all add: waitFor_def Let_def)
    then show ?thesis
      using d(6) [of k] d(3) by (simp add: waitFor_named_def Let_def)
  qed
qed

lemma sim_unparsable:
  assumes "sim t s"
  shows "sim (on_frame_named None t) (s\<lparr>uncaught := uncaught s @ [JSON_SyntaxError]\<rparr>)"
proof (rule simI)
  note d = simD [OF assms]
  let ?t' = "on_frame_named None t" and ?s' = "s\<lparr>uncaught := uncaught s @ [JSON_SyntaxError]\<rparr>"
  have "emit_named ls None t = (None, t) \<or> emit_named ls None t = (Some JSON_SyntaxError, t)" for ls
    by (cases ls) (simp_all add: listener_named_def)
  from this [of "listeners t"]
  have "?t' = t \<or> ?t' = t\<lparr>uncaught_named := uncaught_named t @ [JSON_SyntaxError]\<rparr>"
    by (auto simp: on_frame_named_def)
  then have old: "listeners ?t' = listeners t" "closures_named ?t' = closures_named t"
    "timers_named ?t' = timers_named t" "settled_named ?t' = settled_named t"
    "next_call_named ?t' = next_call_named t"
    by auto
  then have vt: "view_named k ?t' = view_named k t" for k
    by (simp add: view_named_def)
  have vs: "view k ?s' = view k s" for k
    by (simp add: view_def)
  show "invar ?s'" using d(1) by (simp add: invar_def)
  show "pure_state ?s'" using d(2) by (simp add: pure_state_def)
  show "next_call_named ?t' = next_call ?s'" using old(5) d(3) by simp
  show "distinct (listeners ?t')" using old(1) d(4) by simp
  show "\<exists>P T. closures_named ?t' k = Some (WaitFor_named (\<lambda>m. Returns (P m)) T)
                  \<and> closures ?s' k = Some (WaitFor (\<lambda>m. Returns (P m)) 1 T)
                  \<and> rel_view T (view k ?s') (view_named k ?t')" if "k < next_call ?s'" for k
    using d(5) [of k] that vt [of k] vs [of k] old(2) by simp
  show "k \<notin> set (listeners ?t') \<and> timers_named ?t' k = None \<and> settled_named ?t' k = []
           \<and> closures_named ?t' k = None" if "\<not> k < next_call ?s'" for k
    using d(6) [of k] that old by simp
qed

lemma sim_expire:
  assumes "sim t s"
  shows "sim (timer_fires_named j t) (timer_fires j s)"
proof (rule simI)
  note d = simD [OF assms]
  let ?t' = "timer_fires_named j t" and ?s' = "timer_fires j s"
  have cl: "closures ?s' = closures s" by (rule closures_timer_fires)
  have "next_call (timer_callback j c u) = next_call u" for c and u :: "'a client"
    by (cases c) (simp_all add: cleanup_def settle_def Let_def)
  then have nx: "next_call ?s' = next_call s"
    by (simp add: timer_fires_def Let_def split: option.splits)
  have old: "closures_named ?t' = closures_named t" "next_call_named ?t' = next_call_named t"
    "listeners ?t' = listeners t"
    by (auto simp: timer_fires_named_def Let_def settle_named_def
             split: option.splits call_named.splits)
  have other: "view_named k ?t' = view_named k t" if "k \<noteq> j" for k
    using that
    by (auto simp: timer_fires_named_def Let_def settle_named_def view_named_def
             split: option.splits call_named.splits)
  show "invar ?s'" using timer_fires_invar [OF d(1)] by simp
  show "pure_state ?s'" using d(2) cl by (simp add: pure_state_closures)
  show "next_call_named ?t' = next_call ?s'" using old(2) nx d(3) by simp
  show "distinct (listeners ?t')" using old(3) d(4) by simp
  show "\<exists>P T. closures_named ?t' k = Some (WaitFor_named (\<lambda>m. Returns (P m)) T)
                  \<and> closures ?s' k = Some (WaitFor (\<lambda>m. Returns (P m)) 1 T)
                  \<and> rel_view T (view k ?s') (view_named k ?t')" if "k < next_call ?s'" for k
  proof -
    from that obtain P T where c: "closures_named t k = Some (WaitFor_named (\<lambda>m. Returns (P m)) T)"
      "closures s k = Some (WaitFor (\<lambda>m. Returns (P m)) 1 T)"
      and r: "rel_view T (view k s) (view_named k t)"
      using d(5) [of k] nx by auto
    have "rel_view T (view k ?s') (view_named k ?t')"
    proof (cases "k = j")
      case False
      then show ?thesis using r view_timer_fires [of j k s] other [of k] by simp
    next
      case True
      show ?thesis
        using r c unfolding True rel_view_def view_def view_named_def
        by (auto simp: timer_fires_def timer_fires_named_def Let_def cleanup_def settle_def
                       settle_named_def set_set_delete)
    qed
    then show ?thesis using c cl old(1) by auto
  qed
  show "k \<notin> set (listeners ?t') \<and> timers_named ?t' k = None \<and> settled_named ?t' k = []
           \<and> closures_named ?t' k = None" if "\<not> k < next_call ?s'" for k
  proof -
    from that have f: "k \<notin> set (listeners t) \<and> timers_named t k = None \<and> settled_named t k = []
           \<and> closures_named t k = None"
      using d(6) [of k] nx by simp
    then have "timer_fires_named k t = t" by (simp add: timer_fires_named_def)
    then have "view_named k ?t' = view_named k t"
      using other [of k] by (cases "k = j") auto
    then show ?thesis using f old(1) by (simp add: view_named_def)
  qed
qed

lemma sim_step:
  assumes "sim t s"
  shows "\<exists>s'. step (as_default e) s = Some s' \<and> sim (step_named (as_named e) t) s'"
proof (cases e)
  case (Invoke c)
  obtain P T where "c = (P, T)" by (cases c)
  with Invoke sim_invoke [OF assms, of P T] show ?thesis by simp
next
  case (Message m)
  with sim_message [OF assms, of m] show ?thesis by simp
next
  case Unparsable
  with sim_unparsable [OF assms] show ?thesis by simp
next
  case (Expire j)
  with sim_expire [OF assms, of j] show ?thesis by simp
qed

lemma sim_run:
  assumes "sim t s"
  shows "\<exists>s'. run (map as_default sc) s = Some s' \<and> sim (run_named (map as_named sc) t) s'"
  using assms
proof (induction sc arbitrary: t s)
  case Nil
  then show ?case by simp
next
  case (Cons e sc)
  obtain s1 where s1: "step (as_default e) s = Some s1" "sim (step_named (as_named e) t) s1"
    using sim_step [OF Cons.prems] by blast
  from Cons.IH [OF s1(2)] s1(1) show ?case by simp
qed

section \<open>The claims\<close>

text \<open>
  C1. Let a client have run any events \<open>pre\<close>, and let \<^verbatim>\<open>waitFor(P, N, T)\<close> be called with
  \<open>N \<ge> 1\<close>. If at least \<open>N\<close> messages satisfying \<open>P\<close> arrive in the events \<open>es\<close> that
  come before the timer of the call fires, then the promise of the call is resolved,
  once, and what the caller receives is exactly the first \<open>N\<close> messages that satisfy
  \<open>P\<close>, in order of arrival; and so it stays whatever comes later (more matching
  messages, the timer). The other calls made at any time are arbitrary calls whose
  conditions only test the message.
\<close>

theorem C1_waitFor_resolves_with_first_matches:
  assumes "\<forall>e \<in> set (pre @ es @ later). pure_event e"
    and "run pre init = Some s"
    and "1 \<le> N"
    and "Expire (next_call s) \<notin> set es"
    and "N \<le> length (filter P (messages es))"
  shows "\<exists>s'. run (Invoke (WaitFor (\<lambda>m. Returns (P m)) (real N) T) # es @ later) s = Some s'
           \<and> settled s' (next_call s) = [Resolve_results]
           \<and> promise (next_call s) s' = Fulfilled (take N (filter P (messages es)))"
proof -
  let ?c = "WaitFor (\<lambda>m. Returns (P m)) (real N) T"
  let ?k = "next_call s"
  let ?s0 = "perform ?c s"
  have s: "invar s" "pure_state s"
    using reachable_pure [OF _ assms(2)] assms(1) by auto
  have s0: "invar ?s0" "pure_state ?s0" "active ?k ?c ?s0"
    using after_call [OF s pure_call_test(1)] by blast+
  have r0: "results ?s0 ?k = []"
    by (simp add: results_waitFor)
  obtain e1 m e2 where es: "es = e1 @ Message m # e2" and m: "P m"
    and n1: "length (filter P (messages e1)) = N - 1"
    using nth_match_split [OF assms(3,5)] by blast
  have hit: "(\<lambda>m. Returns (P m) = Returns True) = P" by auto
  have p1: "\<forall>e \<in> set e1. pure_event e" "Expire ?k \<notin> set e1"
    and p2: "\<forall>e \<in> set (e2 @ later). pure_event e"
    using assms(1,4) es by auto
  have "\<forall>n. 1 \<le> n \<and> n \<le> length (filter (\<lambda>m. Returns (P m) = Returns True) (messages e1))
          \<longrightarrow> real (length (results ?s0 ?k) + n) \<noteq> real N"
    using n1 r0 by (auto simp: hit)
  from waitFor_collects [OF s0(1,2) p1 s0(3) this]
  obtain s1 where s1: "run e1 ?s0 = Some s1" "invar s1" "pure_state s1" "active ?k ?c s1"
    "results s1 ?k = filter P (messages e1)"
    using r0 by (auto simp: hit)
  have "real (length (results s1 ?k) + 1) = real N"
    using s1(5) n1 assms(3) by simp
  from waitFor_completes [OF s1(2,3,4) _ this, of m] m
  obtain s2 where s2: "step (Message m) s1 = Some s2" "invar s2" "pure_state s2"
    "settled s2 ?k = [Resolve_results]" "results s2 ?k = filter P (messages e1) @ [m]"
    using s1(5) by auto
  obtain s' where s': "run (e2 @ later) s2 = Some s'"
    using run_pure [OF s2(2,3) p2] by blast
  have st: "settled s' ?k = [Resolve_results]" "results s' ?k = filter P (messages e1) @ [m]"
    using settled_stays(1,2) [OF s2(2) s', of ?k] s2(4,5) by simp_all
  have "take N (filter P (messages es)) = filter P (messages e1) @ [m]"
    using es m n1 assms(3) by (simp add: messages_append)
  then have pr: "promise ?k s' = Fulfilled (take N (filter P (messages es)))"
    using st by (simp add: promise_def)
  have "run (Invoke ?c # es @ later) s = Some s'"
    using s1(1) s2(1) s' es by (simp add: run_append)
  with st(1) pr show ?thesis by blast
qed

text \<open>
  The theorem at \<open>N = 2\<close> with four messages of which three match, on a client that has
  another wait outstanding: the caller gets the first two that match.
\<close>

theorem C1_waitFor_resolves_with_first_matches_witness:
  "\<exists>s'. run (Invoke (WaitFor (\<lambda>m. Returns (1 < m)) (real 2) 8000)
              # [Message (2::nat), Message 0, Message 5, Message 7] @ [Expire 1, Message 9])
            (waitForSilence (\<lambda>m. Returns (m = 0)) 5000 init) = Some s'
      \<and> settled s' 1 = [Resolve_results]
      \<and> promise 1 s' = Fulfilled [2, 5]"
proof -
  let ?pre = "[Invoke (WaitForSilence (\<lambda>m. Returns (m = 0)) 5000)] :: (nat call, nat) event list"
  let ?s = "waitForSilence (\<lambda>m. Returns (m = 0)) 5000 init :: nat client"
  have p: "\<forall>e \<in> set (?pre @ [Message (2::nat), Message 0, Message 5, Message 7]
                        @ [Expire 1, Message 9]). pure_event e"
    by (auto simp: pure_call_def)
  have r: "run ?pre init = Some ?s" by simp
  have n: "next_call ?s = 1" by (simp add: waitForSilence_def init_def)
  have x: "Expire (next_call ?s) \<notin> set [Message (2::nat), Message 0, Message 5, Message 7]"
    by simp
  have l: "2 \<le> length (filter (\<lambda>m. 1 < m) (messages [Message (2::nat), Message 0, Message 5,
             Message 7 :: (nat call, nat) event]))"
    by simp
  have t: "take 2 (filter (\<lambda>m. 1 < m) (messages [Message (2::nat), Message 0, Message 5,
             Message 7 :: (nat call, nat) event])) = [2, 5]"
    by simp
  from C1_waitFor_resolves_with_first_matches [OF p r _ x l, of 8000]
  show ?thesis unfolding n t by simp
qed

text \<open>
  C2. For every call of \<^verbatim>\<open>waitFor\<close> or \<^verbatim>\<open>waitForSilence\<close>, whatever the conditions do
  (return, throw, call back into the client) and in whatever order messages arrive and
  timers fire: the promise of the call is settled at most once, so settling on a match
  and settling on the timer exclude each other; once it is settled its handler is out
  of the set and its timer is no longer pending, so the other path cannot run any more;
  and every later state shows the same settlement and the same outcome.
\<close>

theorem C2_settled_at_most_once:
  assumes "run es init = Some s" and "run fs s = Some s'"
  shows "length (settled s' k) \<le> 1
       \<and> (settled s k \<noteq> [] \<longrightarrow>
            Some k \<notin> set (messageHandlers s) \<and> timers s k = None
            \<and> settled s' k = settled s k \<and> promise k s' = promise k s)"
proof -
  have i: "invar s"
    using run_invar [OF assms(1) invar_init] by simp
  have i': "invar s'" and e: "evolves s s'"
    using run_invar [OF assms(2) i] by simp_all
  have "length (settled s' k) \<le> 1"
    using i' by (simp add: invar_def)
  moreover have "Some k \<notin> set (messageHandlers s) \<and> timers s k = None" if "settled s k \<noteq> []"
    using i that unfolding invar_def by blast
  moreover have "settled s' k = settled s k \<and> promise k s' = promise k s" if "settled s k \<noteq> []"
  proof -
    have "settled s' k = settled s k" "results s' k = results s k"
      using e that unfolding evolves_def by blast+
    then show ?thesis by (simp add: promise_def split: list.splits settlement.splits)
  qed
  ultimately show ?thesis by blast
qed

text \<open>
  The theorem at a run where the match comes first and the timer fires afterwards: the
  promise was resolved once and stays fulfilled with the one message.
\<close>

theorem C2_settled_at_most_once_witness:
  "\<exists>s s'. run [Invoke (WaitFor (\<lambda>m. Returns True) 1 8000), Message (0::nat)] init = Some s
        \<and> run [Expire 0, Message 1] s = Some s'
        \<and> settled s 0 = [Resolve_results]
        \<and> settled s' 0 = [Resolve_results]
        \<and> promise 0 s' = Fulfilled [0]"
proof -
  obtain s where s: "run [Invoke (WaitFor (\<lambda>m. Returns True) 1 8000), Message (0::nat)] init = Some s"
    and s0: "settled s 0 = [Resolve_results]" and p0: "promise 0 s = Fulfilled [0]"
    and h: "messageHandlers s = [None]" and t: "timers s 0 = None"
    by (simp add: client_simps forEach.simps)
  obtain s' where s': "run [Expire 0, Message 1] s = Some s'"
    using h t by (simp add: client_simps forEach.simps)
  from C2_settled_at_most_once [OF s s', of 0] s0 p0 s s' show ?thesis
    by auto
qed

text \<open>
  C3. Let \<^verbatim>\<open>waitForSilence(P, W)\<close> be called, and let \<open>es\<close> be the events that come before
  the timer of the call fires. The call succeeds if and only if no message of \<open>es\<close>
  satisfies \<open>P\<close>: with no such message the promise is pending until the timer fires and
  is then fulfilled; with one it is rejected. And it is rejected at the first matching
  message, not when the window ends: right after the delivery of that message the
  promise is rejected, the handler is out of the set and the timer is cleared.
\<close>

theorem C3_waitForSilence_succeeds_iff_silent:
  assumes "\<forall>e \<in> set (pre @ es @ later). pure_event e"
    and "run pre init = Some s"
    and "Expire (next_call s) \<notin> set es"
  shows "\<exists>s1 s2. run (Invoke (WaitForSilence (\<lambda>m. Returns (P m)) W) # es) s = Some s1
           \<and> run (Expire (next_call s) # later) s1 = Some s2
           \<and> (promise (next_call s) s2 = Fulfilled_void \<longleftrightarrow> filter P (messages es) = [])
           \<and> (filter P (messages es) = [] \<longrightarrow> promise (next_call s) s1 = Pending)
           \<and> (filter P (messages es) \<noteq> [] \<longrightarrow>
                promise (next_call s) s2 = Rejected Message_received_during_silence_window)
           \<and> (\<forall>e1 m e2. es = e1 @ Message m # e2 \<and> filter P (messages e1) = [] \<and> P m \<longrightarrow>
                (\<exists>t1 t2. run (Invoke (WaitForSilence (\<lambda>m. Returns (P m)) W) # e1) s = Some t1
                    \<and> promise (next_call s) t1 = Pending
                    \<and> step (Message m) t1 = Some t2
                    \<and> promise (next_call s) t2 = Rejected Message_received_during_silence_window
                    \<and> Some (next_call s) \<notin> set (messageHandlers t2)
                    \<and> timers t2 (next_call s) = None))"
proof -
  let ?c = "WaitForSilence (\<lambda>m. Returns (P m)) W"
  let ?k = "next_call s"
  let ?rej = "Rejected Message_received_during_silence_window :: 'a promise"
  have first: "\<exists>t1 t2. run (Invoke ?c # e1) s = Some t1 \<and> promise ?k t1 = Pending
        \<and> step (Message m) t1 = Some t2 \<and> invar t2 \<and> pure_state t2
        \<and> settled t2 ?k = [Reject Message_received_during_silence_window]
        \<and> Some ?k \<notin> set (messageHandlers t2) \<and> timers t2 ?k = None"
    if "es = e1 @ Message m # e2" "filter P (messages e1) = []" "P m" for e1 m e2
    using silence_first_match [where pre = pre and W = W, OF _ assms(2) _ that(2,3)] assms(1,3) that(1) by auto
  have moment: "\<forall>e1 m e2. es = e1 @ Message m # e2 \<and> filter P (messages e1) = [] \<and> P m \<longrightarrow>
        (\<exists>t1 t2. run (Invoke ?c # e1) s = Some t1 \<and> promise ?k t1 = Pending
            \<and> step (Message m) t1 = Some t2 \<and> promise ?k t2 = ?rej
            \<and> Some ?k \<notin> set (messageHandlers t2) \<and> timers t2 ?k = None)"
  proof (intro allI impI)
    fix e1 m e2
    assume "es = e1 @ Message m # e2 \<and> filter P (messages e1) = [] \<and> P m"
    then obtain t1 t2 where "run (Invoke ?c # e1) s = Some t1" "promise ?k t1 = Pending"
      "step (Message m) t1 = Some t2"
      "settled t2 ?k = [Reject Message_received_during_silence_window]"
      "Some ?k \<notin> set (messageHandlers t2)" "timers t2 ?k = None"
      using first [of e1 m e2] by blast
    then show "\<exists>t1 t2. run (Invoke ?c # e1) s = Some t1 \<and> promise ?k t1 = Pending
            \<and> step (Message m) t1 = Some t2 \<and> promise ?k t2 = ?rej
            \<and> Some ?k \<notin> set (messageHandlers t2) \<and> timers t2 ?k = None"
      using promise_rejected [of t2 ?k] by blast
  qed
  have pl: "\<forall>e \<in> set later. pure_event e" using assms(1) by auto
  show ?thesis
  proof (cases "filter P (messages es) = []")
    case True
    obtain s1 where s1: "run (Invoke ?c # es) s = Some s1" "invar s1" "pure_state s1" "active ?k ?c s1"
      using silence_pending [where pre = pre and W = W, OF _ assms(2,3) True] assms(1) by auto
    have pend: "promise ?k s1 = Pending"
      using s1(4) by (simp add: active_def promise_pending)
    let ?s2 = "timer_fires ?k s1"
    have i2: "invar ?s2" "pure_state ?s2"
      using timer_fires_invar [OF s1(2)] s1(3) closures_timer_fires [of ?k s1]
      by (simp_all add: pure_state_closures)
    obtain s2 where s2: "run later ?s2 = Some s2"
      using run_pure [OF i2 pl] by blast
    have "settled s2 ?k = [Resolve_void]"
      using settled_stays(1) [OF i2(1) s2, of ?k] expire_silence [OF s1(4)] by simp
    then have "promise ?k s2 = Fulfilled_void" by (rule promise_void)
    moreover have "run (Expire ?k # later) s1 = Some s2" using s2 by simp
    ultimately show ?thesis
      using s1(1) pend True moment by blast
  next
    case False
    then have "1 \<le> length (filter P (messages es))"
      by (simp add: Suc_le_eq)
    from nth_match_split [where N = 1, OF _ this]
    obtain e1 m e2 where es: "es = e1 @ Message m # e2" "P m" "filter P (messages e1) = []"
      by auto
    obtain t1 t2 where t: "run (Invoke ?c # e1) s = Some t1" "step (Message m) t1 = Some t2"
      "invar t2" "pure_state t2" "settled t2 ?k = [Reject Message_received_during_silence_window]"
      using first [OF es(1,3,2)] by blast
    have "\<forall>e \<in> set (e2 @ Expire ?k # later). pure_event e"
      using assms(1) es(1) by auto
    then obtain s2 where s2: "run (e2 @ Expire ?k # later) t2 = Some s2"
      using run_pure [OF t(3,4)] by blast
    then obtain s1 where s1: "run e2 t2 = Some s1" "run (Expire ?k # later) s1 = Some s2"
      by (auto simp: run_append split: option.splits)
    have "settled s2 ?k = [Reject Message_received_during_silence_window]"
      using settled_stays(1) [OF t(3) s2, of ?k] t(5) by simp
    then have rej: "promise ?k s2 = ?rej" by (rule promise_rejected)
    have "run (Invoke ?c # es) s = Some s1"
      using t(1,2) s1(1) es(1) by (simp add: run_append split: option.splits)
    with s1(2) rej False moment show ?thesis
      by (intro exI [of _ s1] exI [of _ s2]) simp
  qed
qed

text \<open>
  The theorem at a silent window (the matching message comes after the timer) and at a
  window whose second message matches.
\<close>

theorem C3_waitForSilence_succeeds_iff_silent_witness:
  "(\<exists>s1 s2. run (Invoke (WaitForSilence (\<lambda>m. Returns (m = 1)) 5000)
                  # [Message (0::nat), Message 2]) init = Some s1
        \<and> run (Expire 0 # [Message 1]) s1 = Some s2
        \<and> promise 0 s1 = Pending \<and> promise 0 s2 = Fulfilled_void)
   \<and> (\<exists>s1 s2 t1 t2. run (Invoke (WaitForSilence (\<lambda>m. Returns (m = 1)) 5000)
                  # [Message (0::nat), Message 1, Message 2]) init = Some s1
        \<and> run (Expire 0 # []) s1 = Some s2
        \<and> promise 0 s2 = Rejected Message_received_during_silence_window
        \<and> run (Invoke (WaitForSilence (\<lambda>m. Returns (m = 1)) 5000) # [Message (0::nat)]) init = Some t1
        \<and> promise 0 t1 = Pending
        \<and> step (Message 1) t1 = Some t2
        \<and> promise 0 t2 = Rejected Message_received_during_silence_window
        \<and> Some 0 \<notin> set (messageHandlers t2) \<and> timers t2 0 = None)"
proof -
  let ?c = "WaitForSilence (\<lambda>m. Returns (m = (1::nat))) 5000"
  have n: "next_call (init :: nat client) = 0" by (simp add: init_def)
  have r: "run [] (init :: nat client) = Some init" by simp
  have quiet: "filter (\<lambda>m. m = 1) (messages [Message (0::nat), Message 2]) = []" by simp
  have p1: "\<forall>e \<in> set ([] @ [Message (0::nat), Message 2] @ [Message 1]). pure_event e" by simp
  have x1: "Expire (next_call (init :: nat client)) \<notin> set [Message (0::nat), Message 2]" by simp
  have first: "\<exists>s1 s2. run (Invoke ?c # [Message 0, Message 2]) init = Some s1
        \<and> run (Expire 0 # [Message 1]) s1 = Some s2
        \<and> promise 0 s1 = Pending \<and> promise 0 s2 = Fulfilled_void"
    using C3_waitForSilence_succeeds_iff_silent [OF p1 r x1, of "\<lambda>m. m = 1" 5000] quiet
    unfolding n by blast
  have loud: "filter (\<lambda>m. m = 1) (messages [Message (0::nat), Message 1, Message 2]) \<noteq> []"
    and split: "[Message (0::nat), Message 1, Message 2] = [Message 0] @ Message 1 # [Message 2]
       \<and> filter (\<lambda>m. m = 1) (messages [Message (0::nat)]) = [] \<and> (1::nat) = 1"
    by simp_all
  have p2: "\<forall>e \<in> set ([] @ [Message (0::nat), Message 1, Message 2] @ []). pure_event e" by simp
  have x2: "Expire (next_call (init :: nat client)) \<notin> set [Message (0::nat), Message 1, Message 2]"
    by simp
  have second: "\<exists>s1 s2 t1 t2. run (Invoke ?c # [Message 0, Message 1, Message 2]) init = Some s1
        \<and> run (Expire 0 # []) s1 = Some s2
        \<and> promise 0 s2 = Rejected Message_received_during_silence_window
        \<and> run (Invoke ?c # [Message 0]) init = Some t1
        \<and> promise 0 t1 = Pending
        \<and> step (Message 1) t1 = Some t2
        \<and> promise 0 t2 = Rejected Message_received_during_silence_window
        \<and> Some 0 \<notin> set (messageHandlers t2) \<and> timers t2 0 = None"
    using C3_waitForSilence_succeeds_iff_silent [OF p2 r x2, of "\<lambda>m. m = 1" 5000] loud split
    unfolding n by blast
  from first second show ?thesis by (rule conjI)
qed

text \<open>
  C4. When the timer of a call \<^verbatim>\<open>waitFor(P, count, T)\<close> fires while fewer than \<open>count\<close>
  messages satisfying \<open>P\<close> have arrived, the promise is rejected with the error
  \<^verbatim>\<open>Timeout: Only received n/count messages\<close>, where \<open>n\<close> is the number of matching
  messages received so far; it stays rejected whatever comes later.
\<close>

theorem C4_waitFor_timeout_reports_partial_count:
  assumes "\<forall>e \<in> set (pre @ es @ later). pure_event e"
    and "run pre init = Some s"
    and "Expire (next_call s) \<notin> set es"
    and "real (length (filter P (messages es))) < count"
  shows "\<exists>s'. run (Invoke (WaitFor (\<lambda>m. Returns (P m)) count T) # es
                     @ Expire (next_call s) # later) s = Some s'
           \<and> promise (next_call s) s'
               = Rejected (Timeout_Only_received (length (filter P (messages es))) count)"
proof -
  let ?c = "WaitFor (\<lambda>m. Returns (P m)) count T"
  let ?k = "next_call s"
  have "\<forall>n. 1 \<le> n \<and> n \<le> length (filter P (messages es)) \<longrightarrow> real n \<noteq> count"
    using assms(4) by auto
  from waitFor_pending [where pre = pre and T = T, OF _ assms(2,3) this] assms(1)
  obtain s1 where s1: "run (Invoke ?c # es) s = Some s1" "invar s1" "pure_state s1"
    "active ?k ?c s1" "results s1 ?k = filter P (messages es)"
    by auto
  let ?s2 = "timer_fires ?k s1"
  have s2: "settled ?s2 ?k = [Reject (Timeout_Only_received (length (filter P (messages es))) count)]"
    using expire_waitFor(1) [OF s1(4)] s1(5) by simp
  have i2: "invar ?s2" "pure_state ?s2"
    using timer_fires_invar [OF s1(2)] s1(3) closures_timer_fires [of ?k s1]
    by (simp_all add: pure_state_closures)
  have "\<forall>e \<in> set later. pure_event e" using assms(1) by auto
  from run_pure [OF i2 this] obtain s' where s': "run later ?s2 = Some s'" by blast
  have "settled s' ?k = [Reject (Timeout_Only_received (length (filter P (messages es))) count)]"
    using settled_stays(1) [OF i2(1) s', of ?k] s2 by simp
  then have "promise ?k s' = Rejected (Timeout_Only_received (length (filter P (messages es))) count)"
    by (rule promise_rejected)
  moreover have "run (Invoke ?c # es @ Expire ?k # later) s = Some s'"
    using s1(1) s' by (simp add: run_append split: option.splits)
  ultimately show ?thesis by blast
qed

text \<open>The theorem at \<open>count = 3\<close> with two matching messages before the timer: 2 of 3.\<close>

theorem C4_waitFor_timeout_reports_partial_count_witness:
  "\<exists>s'. run (Invoke (WaitFor (\<lambda>m. Returns (1 < m)) 3 8000)
              # [Message (2::nat), Message 0, Message 5] @ Expire 0 # [Message 7]) init = Some s'
      \<and> promise 0 s' = Rejected (Timeout_Only_received 2 3)"
  using C4_waitFor_timeout_reports_partial_count
    [of "[]" "[Message (2::nat), Message 0, Message 5]" "[Message 7]" init "\<lambda>m. 1 < m" 3 8000]
  by (simp add: init_def numeral_2_eq_2)

text \<open>
  C5, as the claim states it: delivery iterates a snapshot of the registry taken when
  the dispatch starts. It does not: \<^verbatim>\<open>Set.prototype.forEach\<close> walks the set itself. With
  one waiter in the set whose condition registers a second waiter, the handler of the
  second waiter, which was not in the set when the dispatch started, is invoked with
  the same message and its promise is resolved with it.
\<close>

theorem C5_snapshot_counterexample:
  "map_option messageHandlers
     (run [Invoke (WaitFor (\<lambda>m. Calls (WaitFor (\<lambda>m. Returns True) 1 8000) (Returns False)) 1 8000)]
        init)
     = Some [Some 0]
   \<and> map_option delivered
     (run [Invoke (WaitFor (\<lambda>m. Calls (WaitFor (\<lambda>m. Returns True) 1 8000) (Returns False)) 1 8000),
           Message ''update''] init)
     = Some [(0, ''update''), (1, ''update'')]
   \<and> map_option (promise 1)
     (run [Invoke (WaitFor (\<lambda>m. Calls (WaitFor (\<lambda>m. Returns True) 1 8000) (Returns False)) 1 8000),
           Message ''update''] init)
     = Some (Fulfilled [''update''])"
  by (simp add: client_simps forEach.simps)

text \<open>
  C5, amended. On each inbound decoded message the dispatcher delivers it synchronously
  by walking the handler set itself, in insertion order, not a snapshot of it. When the
  delivery ends with no exception escaping, every handler that was in the set when the
  dispatch started and every handler registered during the delivery (by a condition
  that calls back into the client) has been invoked with that message. When the
  conditions only test the message, no exception escapes and the handlers invoked are
  exactly those of the set at dispatch start, each once, in insertion order.
\<close>

theorem C5_delivery_walks_live_set:
  assumes "run pre init = Some s" and "step (Message m) s = Some s'"
  shows "(uncaught s' = uncaught s \<longrightarrow>
           (\<forall>k. Some k \<in> set (messageHandlers s) \<or> (next_call s \<le> k \<and> k < next_call s')
                \<longrightarrow> (k, m) \<in> set (drop (length (delivered s)) (delivered s'))))
       \<and> (pure_state s \<longrightarrow>
            uncaught s' = uncaught s
          \<and> delivered s' = delivered s @ map (\<lambda>k. (k, m)) (entries (messageHandlers s)))"
proof
  have inv: "invar s" using reachable_invar [OF assms(1)] .
  obtain r s1 where f: "forEach 0 m s = Some (r, s1)"
    using assms(2) by (auto simp: on_message_def split: option.splits)
  have w: "walked 0 m s (r, s1)"
    using forEach_walked [OF f inv] .
  show "uncaught s' = uncaught s \<longrightarrow>
           (\<forall>k. Some k \<in> set (messageHandlers s) \<or> (next_call s \<le> k \<and> k < next_call s')
                \<longrightarrow> (k, m) \<in> set (drop (length (delivered s)) (delivered s')))"
  proof (intro impI allI)
    fix k
    assume u: "uncaught s' = uncaught s"
      and k: "Some k \<in> set (messageHandlers s) \<or> (next_call s \<le> k \<and> k < next_call s')"
    have u1: "uncaught s1 = uncaught s" using w by (simp add: walked_def)
    have r: "r = None"
    proof (cases r)
      case (Some e)
      then have "s' = s1\<lparr>uncaught := uncaught s1 @ [e]\<rparr>"
        using assms(2) f by (simp add: on_message_def)
      then have "uncaught s' = uncaught s1 @ [e]" by simp
      with u u1 show ?thesis by simp
    qed simp
    then have s': "s' = s1"
      using assms(2) f by (simp add: on_message_def)
    from w r s' obtain l where l: "delivered s' = delivered s @ l"
      and l1: "\<forall>n k. 0 \<le> n \<and> n < length (messageHandlers s) \<and> messageHandlers s ! n = Some k
                 \<longrightarrow> (k, m) \<in> set l"
      and l2: "\<forall>k. next_call s \<le> k \<and> k < next_call s' \<longrightarrow> (k, m) \<in> set l"
      unfolding walked_def by auto
    have "(k, m) \<in> set l"
    proof (cases "Some k \<in> set (messageHandlers s)")
      case True
      then obtain n where "n < length (messageHandlers s)" "messageHandlers s ! n = Some k"
        by (metis in_set_conv_nth)
      with l1 show ?thesis by blast
    next
      case False
      with k l2 show ?thesis by blast
    qed
    then show "(k, m) \<in> set (drop (length (delivered s)) (delivered s'))"
      using l by simp
  qed
  show "pure_state s \<longrightarrow>
            uncaught s' = uncaught s
          \<and> delivered s' = delivered s @ map (\<lambda>k. (k, m)) (entries (messageHandlers s))"
  proof
    assume "pure_state s"
    from on_message_pure [OF inv this, of m] assms(2)
    have "visits 0 (length (messageHandlers s)) m s s'" by auto
    then show "uncaught s' = uncaught s
          \<and> delivered s' = delivered s @ map (\<lambda>k. (k, m)) (entries (messageHandlers s))"
      by (simp add: visits_def visited_all)
  qed
qed

text \<open>
  The theorem at the client of the counterexample (the waiter registered during the
  delivery, call 1, receives the message), and at a client with two waiters whose
  conditions only test the message.
\<close>

theorem C5_delivery_walks_live_set_witness:
  "(\<exists>s s'. run [Invoke (WaitFor (\<lambda>m. Calls (WaitFor (\<lambda>m. Returns True) 1 8000) (Returns False))
                        1 8000)] init = Some s
        \<and> step (Message ''update'') s = Some s'
        \<and> next_call s = 1 \<and> next_call s' = 2
        \<and> (1, ''update'') \<in> set (drop (length (delivered s)) (delivered s')))
   \<and> (\<exists>s s'. run [Invoke (WaitFor (\<lambda>m. Returns True) 2 8000),
                   Invoke (WaitForSilence (\<lambda>m. Returns False) 5000)] init = Some s
        \<and> step (Message ''update'') s = Some s'
        \<and> delivered s' = [(0, ''update''), (1, ''update'')])"
proof (rule conjI)
  let ?pre = "[Invoke (WaitFor (\<lambda>m. Calls (WaitFor (\<lambda>m. Returns True) 1 8000) (Returns False))
                        1 8000)] :: (string call, string) event list"
  obtain s where s: "run ?pre init = Some s" and n: "next_call s = 1" and u: "uncaught s = []"
    and hs: "messageHandlers s = [Some 0]"
    and c: "closures s 0 = Some (WaitFor (\<lambda>m. Calls (WaitFor (\<lambda>m. Returns True) 1 8000) (Returns False)) 1 8000)"
    by (simp add: client_simps)
  obtain s' where s': "step (Message ''update'') s = Some s'" and n': "next_call s' = 2"
    and u': "uncaught s' = []"
    using hs c u n by (simp add: client_simps forEach.simps)
  have "(1, ''update'') \<in> set (drop (length (delivered s)) (delivered s'))"
    using C5_delivery_walks_live_set [OF s s'] n n' u u' by simp
  with s s' n n'
  show "\<exists>s s'. run ?pre init = Some s \<and> step (Message ''update'') s = Some s'
        \<and> next_call s = 1 \<and> next_call s' = 2
        \<and> (1, ''update'') \<in> set (drop (length (delivered s)) (delivered s'))"
    by blast
next
  let ?pre = "[Invoke (WaitFor (\<lambda>m. Returns True) 2 8000),
               Invoke (WaitForSilence (\<lambda>m. Returns False) 5000)] :: (string call, string) event list"
  have p: "\<forall>e \<in> set ?pre. pure_event e"
    by (auto simp: pure_call_def)
  obtain s where s: "run ?pre init = Some s" and d: "delivered s = []"
    and hs: "messageHandlers s = [Some 0, Some 1]"
    by (simp add: client_simps)
  have ps: "pure_state s" using reachable_pure(2) [OF p s] .
  obtain s' where s': "step (Message ''update'') s = Some s'"
    using step_pure [OF reachable_invar [OF s] ps, of "Message ''update''"] by auto
  have "delivered s' = [(0, ''update''), (1, ''update'')]"
    using C5_delivery_walks_live_set [OF s s'] ps d hs by simp
  with s s'
  show "\<exists>s s'. run ?pre init = Some s \<and> step (Message ''update'') s = Some s'
        \<and> delivered s' = [(0, ''update''), (1, ''update'')]"
    by blast
qed

text \<open>
  C6, as the claim states it: an exception thrown by a condition does not escape the
  delivery loop, and every other registered waiter still receives the message. Neither
  holds: with a first waiter whose condition throws and a second whose condition
  accepts every message, the exception escapes the \<^verbatim>\<open>'message'\<close> listener, the handler of
  the second waiter is never invoked with the message, and its promise stays pending.
\<close>

theorem C6_throwing_condition_escapes_counterexample:
  "map_option uncaught
     (run [Invoke (WaitFor (\<lambda>m. Throws ''boom'') 1 8000),
           Invoke (WaitFor (\<lambda>m. Returns True) 1 8000), Message (7::nat)] init)
     = Some [Predicate_threw ''boom'']
   \<and> map_option delivered
     (run [Invoke (WaitFor (\<lambda>m. Throws ''boom'') 1 8000),
           Invoke (WaitFor (\<lambda>m. Returns True) 1 8000), Message (7::nat)] init)
     = Some [(0, 7)]
   \<and> map_option (promise 1)
     (run [Invoke (WaitFor (\<lambda>m. Throws ''boom'') 1 8000),
           Invoke (WaitFor (\<lambda>m. Returns True) 1 8000), Message (7::nat)] init)
     = Some Pending"
  by (simp add: client_simps forEach.simps)

text \<open>
  C6, amended. There is no \<^verbatim>\<open>try\<close> around \<^verbatim>\<open>condition(msg)\<close>. When the first condition
  that does not return, in the order of the handler set, throws on a message, the
  exception escapes the delivery loop and ends the delivery of that message: the
  handlers before the throwing one have been invoked with the message, each once and in
  order, and then the throwing one; the throwing waiter is left as after a message that
  does not match (registered, timer pending, nothing accumulated, promise pending);
  the handlers after it are not invoked with the message and their waiters are left as
  they were; and the state still satisfies the invariant of the client.
\<close>

theorem C6_throwing_condition_escapes:
  assumes "run pre init = Some s"
    and "j < length (messageHandlers s)" and "messageHandlers s ! j = Some k"
    and "closures s k = Some c" and "condition_of c m = Throws e"
    and "\<forall>n k'. n < j \<and> messageHandlers s ! n = Some k' \<longrightarrow> returns_at s k' m"
  shows "\<exists>s'. step (Message m) s = Some s' \<and> invar s'
           \<and> uncaught s' = uncaught s @ [Predicate_threw e]
           \<and> delivered s' = delivered s @ map (\<lambda>k'. (k', m)) (visited 0 j (messageHandlers s) @ [k])
           \<and> view k s' = view k s
           \<and> (\<forall>k'. Some k' \<in> set (drop (Suc j) (messageHandlers s)) \<longrightarrow>
                 view k' s' = view k' s \<and> k' \<notin> set (visited 0 j (messageHandlers s) @ [k]))"
proof -
  let ?hs = "messageHandlers s"
  have inv: "invar s" using reachable_invar [OF assms(1)] .
  then have dist: "distinct (entries ?hs)" by (simp add: invar_def)
  have ret: "\<forall>n k'. 0 \<le> n \<and> n < j \<and> ?hs ! n = Some k' \<longrightarrow> returns_at s k' m"
    using assms(6) by simp
  obtain s1 where s1: "forEach 0 m s = forEach j m s1" "invar s1" "visits 0 j m s s1"
    using forEach_range [OF inv _ _ ret] assms(2) by auto
  have len1: "length (messageHandlers s1) = length ?hs" and cl1: "closures s1 = closures s"
    and dj: "drop j (messageHandlers s1) = drop j ?hs"
    and un1: "uncaught s1 = uncaught s"
    and del1: "delivered s1 = delivered s @ map (\<lambda>k'. (k', m)) (visited 0 j ?hs)"
    and views: "\<And>k'. view k' s1 =
          (if k' \<in> set (visited 0 j ?hs) then react (the (closures s k')) m (view k' s) else view k' s)"
    using s1(3) by (simp_all add: visits_def)
  have "messageHandlers s1 ! j = drop j (messageHandlers s1) ! 0"
    using assms(2) len1 by simp
  also have "\<dots> = ?hs ! j"
    using dj assms(2) by simp
  finally have slot: "messageHandlers s1 ! j = Some k"
    using assms(3) by simp
  let ?s2 = "s1\<lparr>delivered := delivered s1 @ [(k, m)]\<rparr>"
  have "handler k m s1 = (Some (Predicate_threw e), ?s2)"
    using handler_throws [of s1 k c m e] assms(4,5) cl1 by simp
  then have "forEach j m s1 = Some (Some (Predicate_threw e), ?s2)"
    using slot assms(2) len1 by (subst forEach.simps) simp
  then have st: "step (Message m) s = Some (?s2\<lparr>uncaught := uncaught ?s2 @ [Predicate_threw e]\<rparr>)"
    using s1(1) by (simp add: on_message_def)
  let ?s' = "?s2\<lparr>uncaught := uncaught ?s2 @ [Predicate_threw e]\<rparr>"
  have v': "view k' ?s' = view k' s1" for k'
    by (simp add: view_def)
  have kj: "Some k \<in> set (drop j ?hs)"
    using assms(2,3) by (metis Cons_nth_drop_Suc list.set_intros(1))
  have knot: "k \<notin> set (visited 0 j ?hs)"
    using distinct_entries_earlier [OF dist kj] by (simp add: visited_prefix)
  have later: "view k' ?s' = view k' s \<and> k' \<notin> set (visited 0 j ?hs @ [k])"
    if "Some k' \<in> set (drop (Suc j) ?hs)" for k'
  proof -
    have "Some k' \<in> set (drop j ?hs)"
      using that by (metis in_set_dropD drop_drop plus_1_eq_Suc)
    then have "k' \<notin> set (visited 0 j ?hs)"
      using distinct_entries_earlier [OF dist] by (simp add: visited_prefix)
    moreover have "k' \<noteq> k"
      using distinct_entries_later [OF dist assms(2,3)] that by auto
    ultimately show ?thesis using v' views by simp
  qed
  have "invar ?s'"
    using s1(2) by (simp add: invar_def)
  moreover have "uncaught ?s' = uncaught s @ [Predicate_threw e]"
    using un1 by simp
  moreover have "delivered ?s' = delivered s @ map (\<lambda>k'. (k', m)) (visited 0 j ?hs @ [k])"
    using del1 by simp
  moreover have "view k ?s' = view k s"
    using v' views knot by simp
  ultimately show ?thesis
    using st later by blast
qed

text \<open>
  The theorem at a client with three waiters of which the second throws: the first and
  the second handler are invoked, the third is not.
\<close>

theorem C6_throwing_condition_escapes_witness:
  "\<exists>s s'. run [Invoke (WaitFor (\<lambda>m. Returns True) 2 8000),
               Invoke (WaitFor (\<lambda>m. Throws ''boom'') 1 8000),
               Invoke (WaitFor (\<lambda>m. Returns True) 1 8000)] init = Some s
      \<and> step (Message (7::nat)) s = Some s'
      \<and> uncaught s' = [Predicate_threw ''boom'']
      \<and> delivered s' = [(0, 7), (1, 7)]
      \<and> view 1 s' = view 1 s \<and> view 2 s' = view 2 s
      \<and> settled s 2 = []"
proof -
  let ?pre = "[Invoke (WaitFor (\<lambda>m. Returns True) 2 8000),
               Invoke (WaitFor (\<lambda>m. Throws ''boom'') 1 8000),
               Invoke (WaitFor (\<lambda>m. Returns True) 1 8000)] :: (nat call, nat) event list"
  obtain s where s: "run ?pre init = Some s"
    and hs: "messageHandlers s = [Some 0, Some 1, Some 2]"
    and c0: "closures s 0 = Some (WaitFor (\<lambda>m. Returns True) 2 8000)"
    and c1: "closures s 1 = Some (WaitFor (\<lambda>m. Throws ''boom'') 1 8000)"
    and d: "delivered s = []" and u: "uncaught s = []" and p: "settled s 2 = []"
    by (simp add: client_simps)
  have j: "1 < length (messageHandlers s)" "messageHandlers s ! 1 = Some 1"
    using hs by simp_all
  have t: "condition_of (WaitFor (\<lambda>m. Throws ''boom'') 1 8000) (7::nat) = Throws ''boom''"
    by simp
  have before: "\<forall>n k'. n < 1 \<and> messageHandlers s ! n = Some k' \<longrightarrow> returns_at s k' 7"
    using hs c0 by (auto simp: returns_at_def)
  have later: "Some 2 \<in> set (drop (Suc 1) (messageHandlers s))"
    using hs by simp
  have v: "visited 0 1 (messageHandlers s) = [0]"
    using hs by (simp add: visited_def)
  from C6_throwing_condition_escapes [OF s j c1 t before] later
  obtain s' where "step (Message 7) s = Some s'"
    "uncaught s' = uncaught s @ [Predicate_threw ''boom'']"
    "delivered s' = delivered s @ map (\<lambda>k'. (k', 7)) (visited 0 1 (messageHandlers s) @ [1])"
    "view 1 s' = view 1 s" "view 2 s' = view 2 s"
    by blast
  then show ?thesis
    using s d u p v by auto
qed

text \<open>
  C7, as the claim states it: the error of a failed \<^verbatim>\<open>waitForSilence\<close> carries the
  offending message. It does not: two calls that fail on two different messages are
  rejected with the same error, \<^verbatim>\<open>new Error('Message received during silence window')\<close>.
\<close>

theorem C7_error_omits_message_counterexample:
  "map_option (promise 0)
     (run [Invoke (WaitForSilence (\<lambda>m. Returns True) 5000), Message ''ticker-1''] init)
     = Some (Rejected Message_received_during_silence_window)
   \<and> map_option (promise 0)
     (run [Invoke (WaitForSilence (\<lambda>m. Returns True) 5000), Message ''ticker-2''] init)
     = Some (Rejected Message_received_during_silence_window)
   \<and> ''ticker-1'' \<noteq> ''ticker-2''"
  by (simp add: client_simps forEach.simps)

text \<open>
  C7, amended. Whenever \<^verbatim>\<open>waitForSilence(P, W)\<close> fails because a message \<open>m\<close> satisfying
  \<open>P\<close> arrived before its timer fired, the promise is rejected with the fixed error
  \<^verbatim>\<open>Message received during silence window\<close>, the same for every offending message.
\<close>

theorem C7_silence_error_is_fixed:
  assumes "\<forall>e \<in> set (pre @ es @ later). pure_event e"
    and "run pre init = Some s"
    and "Expire (next_call s) \<notin> set es"
    and "filter P (messages es) = []" and "P m"
  shows "\<exists>s'. run (Invoke (WaitForSilence (\<lambda>m. Returns (P m)) W) # es @ Message m # later) s = Some s'
           \<and> promise (next_call s) s' = Rejected Message_received_during_silence_window"
proof -
  let ?c = "WaitForSilence (\<lambda>m. Returns (P m)) W"
  let ?k = "next_call s"
  obtain t1 t2 where t: "run (Invoke ?c # es) s = Some t1" "step (Message m) t1 = Some t2"
    "invar t2" "pure_state t2" "settled t2 ?k = [Reject Message_received_during_silence_window]"
    using silence_first_match [where pre = pre and W = W, OF _ assms(2,3,4,5)] assms(1) by auto
  have "\<forall>e \<in> set later. pure_event e" using assms(1) by auto
  then obtain s' where s': "run later t2 = Some s'"
    using run_pure [OF t(3,4)] by blast
  have "settled s' ?k = [Reject Message_received_during_silence_window]"
    using settled_stays(1) [OF t(3) s', of ?k] t(5) by simp
  then have "promise ?k s' = Rejected Message_received_during_silence_window"
    by (rule promise_rejected)
  moreover have "run (Invoke ?c # es @ Message m # later) s = Some s'"
    using t(1,2) s' by (simp add: run_append split: option.splits)
  ultimately show ?thesis by blast
qed

text \<open>The theorem at a window with a heartbeat first and a ticker message second.\<close>

theorem C7_silence_error_is_fixed_witness:
  "\<exists>s'. run (Invoke (WaitForSilence (\<lambda>m. Returns (m \<noteq> ''heartbeat'')) 5000)
               # [Message ''heartbeat''] @ Message ''ticker'' # [Expire 0]) init = Some s'
      \<and> promise 0 s' = Rejected Message_received_during_silence_window"
  using C7_silence_error_is_fixed
    [of "[]" "[Message ''heartbeat'']" "[Expire 0]" init "\<lambda>m. m \<noteq> ''heartbeat''" "''ticker''" 5000]
  by (simp add: init_def)

text \<open>
  C8. Deregistration is idempotent: running \<^verbatim>\<open>cleanup\<close> of a call a second time (the
  match path and the timer path both call it) leaves the client, and so the handler set
  and the timers, exactly as the first run left them.
\<close>

theorem C8_cleanup_idempotent: "cleanup k (cleanup k s) = cleanup k s"
  by (simp add: cleanup_def set_delete_def)

text \<open>
  C9. When \<^verbatim>\<open>waitFor\<close> is called with a \<open>count\<close> that no length \<open>n \<ge> 1\<close> equals (zero, a
  negative number, a number that is not an integer), the call never resolves: however
  many matching messages arrive before the timer fires, the promise is still pending
  and the messages pile up in \<^verbatim>\<open>results\<close> (the length is compared with \<open>count\<close> only after
  a push, when it is at least one); when the timer fires the promise is rejected, with
  the number of matches received so far.
\<close>

theorem C9_waitFor_unreachable_count:
  assumes "\<forall>e \<in> set (pre @ es @ later). pure_event e"
    and "run pre init = Some s"
    and "Expire (next_call s) \<notin> set es"
    and "\<forall>n. 1 \<le> n \<longrightarrow> real n \<noteq> count"
  shows "\<exists>s1 s2. run (Invoke (WaitFor (\<lambda>m. Returns (P m)) count T) # es) s = Some s1
           \<and> promise (next_call s) s1 = Pending
           \<and> results s1 (next_call s) = filter P (messages es)
           \<and> run (Expire (next_call s) # later) s1 = Some s2
           \<and> promise (next_call s) s2
               = Rejected (Timeout_Only_received (length (filter P (messages es))) count)"
proof -
  let ?c = "WaitFor (\<lambda>m. Returns (P m)) count T"
  let ?k = "next_call s"
  have "\<forall>n. 1 \<le> n \<and> n \<le> length (filter P (messages es)) \<longrightarrow> real n \<noteq> count"
    using assms(4) by auto
  from waitFor_pending [where pre = pre and T = T, OF _ assms(2,3) this] assms(1)
  obtain s1 where s1: "run (Invoke ?c # es) s = Some s1" "invar s1" "pure_state s1"
    "active ?k ?c s1" "results s1 ?k = filter P (messages es)"
    by auto
  have pend: "promise ?k s1 = Pending"
    using s1(4) by (simp add: active_def promise_pending)
  let ?s2 = "timer_fires ?k s1"
  have s2: "settled ?s2 ?k = [Reject (Timeout_Only_received (length (filter P (messages es))) count)]"
    using expire_waitFor(1) [OF s1(4)] s1(5) by simp
  have i2: "invar ?s2" "pure_state ?s2"
    using timer_fires_invar [OF s1(2)] s1(3) closures_timer_fires [of ?k s1]
    by (simp_all add: pure_state_closures)
  have "\<forall>e \<in> set later. pure_event e" using assms(1) by auto
  from run_pure [OF i2 this] obtain s' where s': "run later ?s2 = Some s'" by blast
  have "settled s' ?k = [Reject (Timeout_Only_received (length (filter P (messages es))) count)]"
    using settled_stays(1) [OF i2(1) s', of ?k] s2 by simp
  then have "promise ?k s' = Rejected (Timeout_Only_received (length (filter P (messages es))) count)"
    by (rule promise_rejected)
  moreover have "run (Expire ?k # later) s1 = Some s'"
    using s' by simp
  ultimately show ?thesis using s1(1,5) pend by blast
qed

text \<open>The theorem at \<open>count = 0\<close> with three matching messages.\<close>

theorem C9_waitFor_unreachable_count_witness:
  "\<exists>s1 s2. run (Invoke (WaitFor (\<lambda>m. Returns True) 0 8000)
                # [Message (2::nat), Message 0, Message 5]) init = Some s1
      \<and> promise 0 s1 = Pending
      \<and> results s1 0 = [2, 0, 5]
      \<and> run (Expire 0 # [Message 7]) s1 = Some s2
      \<and> promise 0 s2 = Rejected (Timeout_Only_received 3 0)"
  using C9_waitFor_unreachable_count
    [of "[]" "[Message (2::nat), Message 0, Message 5]" "[Message 7]" init 0 "\<lambda>m. True" 8000]
  by (simp add: init_def numeral_3_eq_3)

text \<open>
  C10. Take any scenario: calls given by a predicate and a timeout, messages,
  unparsable frames and timer expiries, in any order. Run it on the named-export client
  with \<^verbatim>\<open>waitFor(P, T)\<close> and on the default-export client with \<^verbatim>\<open>waitFor(P, 1, T)\<close>. Then
  for every call the two promises correspond: both pending, or the one fulfilled with
  the first message satisfying \<open>P\<close> and the other with the list of that message alone,
  or both rejected by their timer. (The errors differ in their text, and after a timeout
  the named-export client leaves its listener registered; neither shows in the outcome.)
\<close>

theorem C10_named_and_default_waitFor_agree:
  "\<exists>s. run (map as_default sc) init = Some s
      \<and> (\<forall>k. corresponds (promise_named k (run_named (map as_named sc) init_named))
                          (promise k s))"
  using sim_run [OF sim_init, of sc] sim_corresponds by blast

text \<open>
  The theorem at a scenario with two calls: the first times out before its message
  arrives, the second receives it.
\<close>

theorem C10_named_and_default_waitFor_agree_witness:
  "\<exists>s. run (map as_default [Invoke ((\<lambda>m. m = (1::nat)), 20000), Message 2, Expire 0,
                             Invoke ((\<lambda>m. m = 1), 20000), Message 1]) init = Some s
      \<and> promise_named 0 (run_named (map as_named [Invoke ((\<lambda>m. m = (1::nat)), 20000), Message 2,
                             Expire 0, Invoke ((\<lambda>m. m = 1), 20000), Message 1]) init_named)
          = Rejected_named (Wait_Timeout_Message_not_received_within 20000)
      \<and> promise 0 s = Rejected (Timeout_Only_received 0 1)
      \<and> promise_named 1 (run_named (map as_named [Invoke ((\<lambda>m. m = (1::nat)), 20000), Message 2,
                             Expire 0, Invoke ((\<lambda>m. m = 1), 20000), Message 1]) init_named)
          = Fulfilled_named 1
      \<and> promise 1 s = Fulfilled [1]"
proof -
  let ?sc = "[Invoke ((\<lambda>m. m = (1::nat)), 20000), Message 2, Expire 0,
              Invoke ((\<lambda>m. m = 1), 20000), Message 1]"
  let ?t = "run_named (map as_named ?sc) init_named"
  have old: "promise_named 0 ?t = Rejected_named (Wait_Timeout_Message_not_received_within 20000)"
    "promise_named 1 ?t = Fulfilled_named 1"
    by (simp_all add: init_named_def waitFor_named_def on_frame_named_def listener_named_def
          matched_named_def settle_named_def timer_fires_named_def removeListener_def
          promise_named_def Let_def)
  obtain s where s: "run (map as_default ?sc) init = Some s"
    and c: "\<And>k. corresponds (promise_named k ?t) (promise k s)"
    using C10_named_and_default_waitFor_agree [of ?sc] by blast
  have "promise 0 s = Rejected (Timeout_Only_received 0 1)" "promise 1 s = Fulfilled [1]"
    using c [of 0] c [of 1] old by simp_all
  with s old show ?thesis by blast
qed

end
